theory Spec2Isabelle
  imports Main
begin

text \<open>
  A shallow embedding of the plugin \<^verbatim>\<open>src/__init__.py\<close>: the hook \<^verbatim>\<open>on_content_object_init\<close>
  that attaches to each tracked document the chain of its historical revisions, the
  repository discovery it relies on, and the path arithmetic that places each revision in the
  output tree. Content objects are mutable and shared, so the hook is modelled as a function
  on a world holding a heap of content objects; exceptions are values of the result; the
  re-entrant dispatch of the hook on each new revision is genuine recursion, with a
  termination proof.
\<close>

section \<open>Path functions of the standard library (POSIX flavour)\<close>

text \<open>
  The hook calls \<^verbatim>\<open>os.path\<close> (taken here as \<^verbatim>\<open>posixpath\<close>) and string methods. Each definition
  follows the library's code. \<open>rfind\<close> is \<open>- 1\<close> when the character is absent. \<open>posix_split\<close>
  cuts after the last separator and strips trailing separators from the head unless the head
  consists of separators only; \<open>posix_dirname\<close> is its head and \<open>posix_basename\<close> its tail.
  \<open>splitext\<close> cuts at the last dot of the last component unless only dots precede it there.
  \<open>posix_join\<close> restarts at a component that begins with a separator and otherwise appends it,
  inserting a separator unless the path so far is empty or ends in one.
\<close>

definition sep :: char where
  "sep = CHR ''/''"

definition extsep :: char where
  "extsep = CHR ''.''"

definition startswith :: "string \<Rightarrow> char \<Rightarrow> bool" where
  "startswith s c = (case s of [] \<Rightarrow> False | x # _ \<Rightarrow> x = c)"

definition endswith :: "string \<Rightarrow> char \<Rightarrow> bool" where
  "endswith s c = (s \<noteq> [] \<and> last s = c)"

definition rstrip :: "char \<Rightarrow> string \<Rightarrow> string" where
  "rstrip c s = rev (dropWhile (\<lambda>x. x = c) (rev s))"

definition rfind :: "char \<Rightarrow> string \<Rightarrow> int" where
  "rfind c s =
     (if c \<in> set s then int (length s) - 1 - int (length (takeWhile (\<lambda>x. x \<noteq> c) (rev s)))
      else - 1)"

definition posix_split :: "string \<Rightarrow> string \<times> string" where
  "posix_split p =
     (let i = nat (rfind sep p + 1);
          head = take i p;
          tail = drop i p
      in (if head \<noteq> [] \<and> head \<noteq> replicate (length head) sep then rstrip sep head else head,
          tail))"

definition posix_dirname :: "string \<Rightarrow> string" where
  "posix_dirname p =
     (let i = nat (rfind sep p + 1);
          head = take i p
      in if head \<noteq> [] \<and> head \<noteq> replicate (length head) sep then rstrip sep head else head)"

definition posix_basename :: "string \<Rightarrow> string" where
  "posix_basename p = drop (nat (rfind sep p + 1)) p"

definition slice :: "nat \<Rightarrow> nat \<Rightarrow> 'a list \<Rightarrow> 'a list" where
  "slice i j xs = take (j - i) (drop i xs)"

definition splitext :: "string \<Rightarrow> string \<times> string" where
  "splitext p =
     (let sepIndex = rfind sep p;
          dotIndex = rfind extsep p
      in if dotIndex > sepIndex \<and>
            list_ex (\<lambda>x. x \<noteq> extsep) (slice (nat (sepIndex + 1)) (nat dotIndex) p)
         then (take (nat dotIndex) p, drop (nat dotIndex) p)
         else (p, []))"

definition join_step :: "string \<Rightarrow> string \<Rightarrow> string" where
  "join_step path b =
     (if startswith b sep then b
      else if path = [] \<or> endswith path sep then path @ b
      else path @ sep # b)"

definition posix_join :: "string \<Rightarrow> string list \<Rightarrow> string" where
  "posix_join a p = foldl join_step a p"

definition replace_char :: "char \<Rightarrow> char \<Rightarrow> string \<Rightarrow> string" where
  "replace_char old new s = map (\<lambda>x. if x = old then new else x) s"

section \<open>Data model\<close>

text \<open>
  Content objects live in a heap of addresses; \<open>lim\<close> is the next fresh address, so an object
  returned by the reader is distinct from every existing one. An attribute that an object
  does not have (\<^verbatim>\<open>hasattr\<close> is false) is \<open>None\<close>. The host's properties \<open>save_as\<close> and \<open>url\<close>
  return the \<^verbatim>\<open>override_\<close> attribute when it is set and the value expanded from the settings
  otherwise. \<open>fromtimestamp\<close> and \<open>strftime\<close> are kept symbolic. \<open>is_Static\<close> tells whether the
  object is an instance of the host's Static class. The namedtuple \<open>git_class\<close> holds the
  revision list as a list of addresses: the list is complete before the first tuple is built
  and is never changed afterwards.

  The record \<open>env\<close> collects the capabilities the hook consumes: \<open>git_Repo\<close> probes one
  directory for a repository and either opens it, or raises \<^verbatim>\<open>InvalidGitRepositoryError\<close> (the
  directory exists and is no repository root), or raises \<^verbatim>\<open>NoSuchPathError\<close> (the directory
  does not exist; written \<open>NoSuchPath\<close> as a probe result); \<open>relpath\<close> is
  \<^verbatim>\<open>os.path.relpath\<close>, and \<open>read_file\<close> is the host's reader applied to a format and the bytes
  of a blob (\<open>None\<close> stands for an exception of the reader; the temporary file that carries
  the bytes, and the host's own dispatch of its signal on the object while it is read from that
  temporary path, are inside \<open>read_file\<close>). \<open>tree\<close> looks a path up in a commit's tree (\<open>None\<close> stands for
  \<^verbatim>\<open>KeyError\<close>). \<open>iter_commits\<close> lists the commits that touched a path, newest first, or raises:
  the library resolves the head commit first and raises \<^verbatim>\<open>ValueError\<close> in a repository that
  has no commit yet. The field \<open>cache\<close> of the world is the memo table that \<^verbatim>\<open>functools.lru_cache\<close>
  keeps for \<open>discover_repository\<close>.
\<close>

type_synonym addr = nat

datatype SafeDatetime = fromtimestamp int

datatype formatted_date = strftime SafeDatetime string

record Commit =
  hexsha :: string
  authored_date :: int
  tree :: "string \<Rightarrow> string option"

datatype error = KeyError string | ReadError | NoSuchPathError string | ValueError

record Repo =
  working_dir :: string
  iter_commits :: "string \<Rightarrow> error + Commit list"

datatype probe = Opened Repo | InvalidGitRepositoryError | NoSuchPath

record git_class =
  commit :: Commit
  file_path :: string
  revisions :: "addr list"
  previous_revision :: "addr option"
  next_revision :: "addr option"

record Content =
  is_Static :: bool
  source_path :: string
  date :: "SafeDatetime option"
  locale_date :: "formatted_date option"
  modified :: "SafeDatetime option"
  locale_modified :: "formatted_date option"
  date_format :: string
  settings_save_as :: string
  settings_url :: string
  override_save_as :: "string option"
  override_url :: "string option"
  git :: "git_class option"

definition save_as :: "Content \<Rightarrow> string" where
  "save_as c = (case override_save_as c of Some s \<Rightarrow> s | None \<Rightarrow> settings_save_as c)"

definition url :: "Content \<Rightarrow> string" where
  "url c = (case override_url c of Some s \<Rightarrow> s | None \<Rightarrow> settings_url c)"

record world =
  heap :: "addr \<Rightarrow> Content"
  lim :: addr
  cache :: "string \<Rightarrow> Repo option option"

record env =
  git_Repo :: "string \<Rightarrow> probe"
  relpath :: "string \<Rightarrow> string \<Rightarrow> string"
  read_file :: "string \<Rightarrow> string \<Rightarrow> Content option"

datatype outcome = Returned (world_of: world) | Raised (error_of: error) (world_of: world)

section \<open>Repository discovery\<close>

text \<open>
  \<^verbatim>\<open>discover_repository\<close> probes \<open>root\<close>, and after \<^verbatim>\<open>InvalidGitRepositoryError\<close>, the only
  exception it catches, replaces \<open>root\<close> by the head of its split and goes on while the tail of
  that split is non-empty; any other exception of the probe leaves the function. The head is
  shorter than the path whenever the tail is non-empty, which is the termination argument.
  \<^verbatim>\<open>functools.lru_cache\<close> stores a result only when the function returns.
\<close>

lemma length_rstrip_le: "length (rstrip c s) \<le> length s"
  unfolding rstrip_def
  by (metis length_dropWhile_le length_rev)

lemma posix_split_shorter:
  assumes "posix_split root = (root', tail)" and "tail \<noteq> []"
  shows "length root' < length root"
proof -
  define i where "i = nat (rfind sep root + 1)"
  from assms have "drop i root \<noteq> []"
    by (auto simp: posix_split_def Let_def i_def)
  then have "i < length root" by simp
  then have "length (take i root) < length root" by simp
  moreover have "length root' \<le> length (take i root)"
    using assms(1) length_rstrip_le [of sep "take i root"]
    by (auto simp: posix_split_def Let_def i_def split: if_splits)
  ultimately show ?thesis by linarith
qed

function discover_repository :: "(string \<Rightarrow> probe) \<Rightarrow> string \<Rightarrow> error + Repo option" where
  "discover_repository Repo root =
     (case Repo root of
        Opened repository \<Rightarrow> Inr (Some repository)
      | NoSuchPath \<Rightarrow> Inl (NoSuchPathError root)
      | InvalidGitRepositoryError \<Rightarrow>
          (case posix_split root of
             (root', tail) \<Rightarrow> if tail \<noteq> [] then discover_repository Repo root' else Inr None))"
  by pat_completeness auto
termination
  by (relation "measure (\<lambda>(Repo, root). length root)") (auto dest: posix_split_shorter [OF sym])

declare discover_repository.simps [simp del]

definition cached_discover_repository ::
  "env \<Rightarrow> world \<Rightarrow> string \<Rightarrow> (error + Repo option) \<times> world"
where
  "cached_discover_repository E w path =
     (case cache w path of
        Some result \<Rightarrow> (Inr result, w)
      | None \<Rightarrow>
          (case discover_repository (git_Repo E) path of
             Inl e \<Rightarrow> (Inl e, w)
           | Inr result \<Rightarrow> (Inr result, w\<lparr>cache := (cache w)(path \<mapsto> result)\<rparr>)))"

definition make_repository_file_path :: "env \<Rightarrow> Repo \<Rightarrow> string \<Rightarrow> string" where
  "make_repository_file_path E repository path =
     replace_char (CHR 0x5C) sep (relpath E path (working_dir repository))"

section \<open>The content-object hook\<close>

text \<open>
  The body of \<^verbatim>\<open>on_content_object_init\<close> in the order of the source:
  \<open>overwrite_revision_dates\<close> is the branch for an object that already has a \<open>git\<close> attribute
  (lines 53 to 70); \<open>infer_date\<close> and \<open>infer_modified\<close> are lines 73 to 81;
  \<open>materialize_revisions\<close> is the loop of lines 85 to 110, with \<open>revision_save_as\<close> the path
  expression of lines 98 to 107; \<open>link_revisions\<close> is the loop of lines 113 to 126, where
  \<open>send\<close> is the dispatch of the signal to the hook itself and \<open>revision_git\<close> the tuple built
  in lines 114 to 123; \<open>attach_live_git\<close> is lines 129 and 130. Lines 36 and 41 stand outside
  any handler: an exception of the discovery or of \<open>iter_commits\<close> leaves the hook. Commits compare by hash, as
  the version-control library defines their equality. Indices are compared as integers, so
  that \<open>revision_count - 2\<close> is \<open>- 1\<close> for a single revision. The reader is asked for an object
  of the live document's class, hence the copy of \<open>is_Static\<close> onto each revision. The list
  reads \<open>revs ! (index - 1)\<close> and \<open>revs ! (index + 1)\<close> are guarded as in the source and stay
  in range, since \<open>index\<close> enumerates the revision list itself.

  The hook calls itself through the signal once per new revision. The congruence rule records
  that \<open>link_revisions\<close> dispatches only on objects whose \<open>git\<close> attribute is set; on those the
  hook takes the branch without dispatch, so the recursion ends after one level.
\<close>

definition overwrite_revision_dates :: "world \<Rightarrow> addr \<Rightarrow> git_class \<Rightarrow> world" where
  "overwrite_revision_dates w a g =
     (let created = fromtimestamp (authored_date (commit g));
          content = heap w a;
          w1 = w\<lparr>heap := (heap w)(a := content\<lparr>date := Some created,
                  locale_date := Some (strftime created (date_format content))\<rparr>)\<rparr>
      in case previous_revision g of
           None \<Rightarrow> w1
         | Some p \<Rightarrow>
             w1\<lparr>heap := (heap w1)(p := (heap w1 p)\<lparr>modified := Some created,
                  locale_modified := Some (strftime created (date_format (heap w1 a)))\<rparr>)\<rparr>)"

definition infer_date :: "Commit \<Rightarrow> world \<Rightarrow> addr \<Rightarrow> world" where
  "infer_date first_commit w a =
     (let content = heap w a
      in if date content = None
         then (let created = fromtimestamp (authored_date first_commit)
               in w\<lparr>heap := (heap w)(a := content\<lparr>date := Some created,
                      locale_date := Some (strftime created (date_format content))\<rparr>)\<rparr>)
         else w)"

definition infer_modified :: "Commit \<Rightarrow> Commit \<Rightarrow> world \<Rightarrow> addr \<Rightarrow> world" where
  "infer_modified first_commit latest_commit w a =
     (let content = heap w a
      in if hexsha first_commit \<noteq> hexsha latest_commit \<and> modified content = None
         then (let m = fromtimestamp (authored_date latest_commit)
               in w\<lparr>heap := (heap w)(a := content\<lparr>modified := Some m,
                      locale_modified := Some (strftime m (date_format content))\<rparr>)\<rparr>)
         else w)"

definition revision_save_as :: "Content \<Rightarrow> Commit \<Rightarrow> string" where
  "revision_save_as content c =
     (let filename = posix_basename (save_as content);
          root = fst (splitext filename);
          extension = snd (splitext filename);
          u = url content
      in posix_join (if endswith u sep then u else posix_dirname u)
           [if root \<noteq> ''index'' then root else [], hexsha c, ''index'' @ extension])"

fun materialize_revisions ::
  "env \<Rightarrow> addr \<Rightarrow> string \<Rightarrow> Commit list \<Rightarrow> addr list \<Rightarrow> world \<Rightarrow> error \<times> world + addr list \<times> world"
where
  "materialize_revisions E a rfp [] revs w = Inr (revs, w)"
| "materialize_revisions E a rfp (c # cs) revs w =
     (case tree c rfp of
        None \<Rightarrow> Inl (KeyError rfp, w)
      | Some blob \<Rightarrow>
          (case read_file E (drop 1 (snd (splitext rfp))) blob of
             None \<Rightarrow> Inl (ReadError, w)
           | Some parsed \<Rightarrow>
               (let content = heap w a;
                    r = lim w;
                    revision = parsed\<lparr>is_Static := is_Static content,
                                 source_path := source_path content\<rparr>;
                    revision = revision\<lparr>override_save_as := Some (revision_save_as content c)\<rparr>;
                    revision = revision\<lparr>override_url := Some (posix_dirname (save_as revision))\<rparr>
                in materialize_revisions E a rfp cs (revs @ [r])
                     (w\<lparr>heap := (heap w)(r := revision), lim := Suc r\<rparr>))))"

definition revision_git :: "addr \<Rightarrow> string \<Rightarrow> addr list \<Rightarrow> nat \<Rightarrow> Commit \<Rightarrow> git_class" where
  "revision_git a rfp revs index c =
     (let revision_count = int (length revs);
          previous = (if index > 0 then Some (revs ! (index - 1)) else None);
          nxt = (if int index = revision_count - 2 then Some a
                 else if int index < revision_count - 1 then Some (revs ! (index + 1))
                 else None)
      in \<lparr>commit = c, file_path = rfp, revisions = revs,
          previous_revision = previous, next_revision = nxt\<rparr>)"

fun link_revisions ::
  "(world \<Rightarrow> addr \<Rightarrow> outcome) \<Rightarrow> addr \<Rightarrow> string \<Rightarrow> addr list \<Rightarrow>
   (nat \<times> Commit \<times> addr) list \<Rightarrow> world \<Rightarrow> outcome"
where
  "link_revisions send a rfp revs [] w = Returned w"
| "link_revisions send a rfp revs ((index, c, r) # rest) w =
     (let w1 = w\<lparr>heap := (heap w)(r := (heap w r)\<lparr>git := Some (revision_git a rfp revs index c)\<rparr>)\<rparr>
      in case send w1 r of
           Raised e w2 \<Rightarrow> Raised e w2
         | Returned w2 \<Rightarrow> link_revisions send a rfp revs rest w2)"

lemma link_revisions_cong [fundef_cong]:
  assumes "a = a'" and "rfp = rfp'" and "revs = revs'" and "xs = xs'" and "w = w'"
    and "\<And>v r. git (heap v r) \<noteq> None \<Longrightarrow> send v r = send' v r"
  shows "link_revisions send a rfp revs xs w = link_revisions send' a' rfp' revs' xs' w'"
  unfolding assms(1-5) using assms(6)
proof (induction xs' arbitrary: w')
  case Nil
  show ?case by simp
next
  case (Cons x xs')
  obtain index c r where x: "x = (index, c, r)" by (cases x)
  show ?case
    unfolding x using Cons by (simp add: Let_def split: outcome.split)
qed

definition attach_live_git :: "Commit \<Rightarrow> string \<Rightarrow> addr list \<Rightarrow> world \<Rightarrow> addr \<Rightarrow> world" where
  "attach_live_git latest_commit rfp revs w a =
     (let revision_count = length revs;
          previous = (if revision_count > 1 then Some (revs ! (revision_count - 2)) else None)
      in w\<lparr>heap := (heap w)(a := (heap w a)\<lparr>git := Some \<lparr>commit = latest_commit, file_path = rfp,
             revisions = revs, previous_revision = previous, next_revision = None\<rparr>\<rparr>)\<rparr>)"

lemma heap_cached_discover_repository:
  "cached_discover_repository E w path = (res, w1) \<Longrightarrow> heap w1 = heap w"
  by (auto simp: cached_discover_repository_def Let_def split: option.splits sum.splits)

function on_content_object_init :: "env \<Rightarrow> world \<Rightarrow> addr \<Rightarrow> outcome" where
  "on_content_object_init E w a =
     (if is_Static (heap w a) then Returned w
      else
        (case cached_discover_repository E w (posix_dirname (source_path (heap w a))) of
           (Inl e, w1) \<Rightarrow> Raised e w1
         | (Inr None, w1) \<Rightarrow> Returned w1
         | (Inr (Some repository), w1) \<Rightarrow>
             (let rfp = make_repository_file_path E repository (source_path (heap w1 a))
              in case iter_commits repository rfp of
                   Inl e \<Rightarrow> Raised e w1
                 | Inr newest_first \<Rightarrow>
                     (let commits = rev newest_first
                      in if commits = [] then Returned w1
                         else
                           (case git (heap w1 a) of
                              Some g \<Rightarrow> Returned (overwrite_revision_dates w1 a g)
                            | None \<Rightarrow>
                                (let w2 = infer_modified (hd commits) (last commits)
                                            (infer_date (hd commits) w1 a) a
                                 in case materialize_revisions E a rfp commits [] w2 of
                                      Inl (e, w3) \<Rightarrow> Raised e w3
                                    | Inr (revs, w3) \<Rightarrow>
                                        (case link_revisions (on_content_object_init E) a rfp revs
                                                (zip [0 ..< length revs] (zip commits revs)) w3 of
                                           Raised e w4 \<Rightarrow> Raised e w4
                                         | Returned w4 \<Rightarrow>
                                             Returned
                                               (attach_live_git (last commits) rfp revs w4 a))))))))"
  by pat_completeness auto
termination
  by (relation "measure (\<lambda>(E, w, a). if git (heap w a) = None then 1 else 0)")
     (auto dest: heap_cached_discover_repository [OF sym])

declare on_content_object_init.simps [simp del]

section \<open>The hook on a chained object, and its two loops\<close>

text \<open>
  \<open>commits_of\<close> is the commit list of a source path, oldest first, and empty when the
  history cannot be listed; \<open>parse_at\<close> is the reader's
  result for a commit; \<open>materialized\<close> is the object the first loop stores for a commit;
  \<open>link_step\<close> is one iteration of the second loop, dispatch included; \<open>inferred\<close> is the
  live document after lines 73 to 81.
\<close>

lemma cached_discover_repository_hit:
  "cache w path = Some result \<Longrightarrow> cached_discover_repository E w path = (Inr result, w)"
  by (simp add: cached_discover_repository_def)

lemma cached_discover_repository_fills:
  assumes "cached_discover_repository E w path = (Inr result, w1)"
  shows "cache w1 path = Some result" and "lim w1 = lim w" and "heap w1 = heap w"
  using assms
  by (auto simp: cached_discover_repository_def Let_def split: option.splits sum.splits)

lemma cached_discover_repository_world:
  assumes "cached_discover_repository E w path = (res, w1)"
  shows "lim w1 = lim w" and "heap w1 = heap w"
  using assms
  by (auto simp: cached_discover_repository_def Let_def split: option.splits sum.splits)

definition commits_of :: "env \<Rightarrow> Repo \<Rightarrow> string \<Rightarrow> Commit list" where
  "commits_of E repository path =
     (case iter_commits repository (make_repository_file_path E repository path) of
        Inl e \<Rightarrow> []
      | Inr newest_first \<Rightarrow> rev newest_first)"

lemma on_content_object_init_chained:
  assumes "\<not> is_Static (heap w a)"
    and "cache w (posix_dirname (source_path (heap w a))) = Some (Some repository)"
    and "commits_of E repository (source_path (heap w a)) \<noteq> []"
    and "git (heap w a) = Some g"
  shows "on_content_object_init E w a = Returned (overwrite_revision_dates w a g)"
  using assms
  by (auto simp: on_content_object_init.simps cached_discover_repository_hit commits_of_def
        Let_def split: sum.splits)

definition materialized :: "Content \<Rightarrow> Commit \<Rightarrow> Content \<Rightarrow> Content" where
  "materialized content c parsed =
     parsed\<lparr>is_Static := is_Static content, source_path := source_path content,
            override_save_as := Some (revision_save_as content c),
            override_url := Some (posix_dirname (revision_save_as content c))\<rparr>"

definition parse_at :: "env \<Rightarrow> string \<Rightarrow> Commit \<Rightarrow> Content option" where
  "parse_at E rfp c =
     (case tree c rfp of None \<Rightarrow> None
      | Some blob \<Rightarrow> read_file E (drop 1 (snd (splitext rfp))) blob)"

lemma materialize_revisions_Inr:
  assumes "materialize_revisions E a rfp cs revs w = Inr (revs', w')" and "a < lim w"
  shows "revs' = revs @ [lim w ..< lim w + length cs]
       \<and> lim w' = lim w + length cs \<and> cache w' = cache w
       \<and> (\<forall>x < lim w. heap w' x = heap w x)
       \<and> (\<forall>i < length cs. \<exists>parsed. parse_at E rfp (cs ! i) = Some parsed
              \<and> heap w' (lim w + i) = materialized (heap w a) (cs ! i) parsed)"
  using assms
proof (induction cs arbitrary: revs w)
  case Nil
  then show ?case by simp
next
  case (Cons c cs)
  from Cons.prems(1) obtain blob parsed where
    blob: "tree c rfp = Some blob" and
    parsed: "read_file E (drop 1 (snd (splitext rfp))) blob = Some parsed"
    by (auto split: option.splits)
  define w1 where "w1 = w\<lparr>heap := (heap w)(lim w := materialized (heap w a) c parsed),
                          lim := Suc (lim w)\<rparr>"
  have step: "materialize_revisions E a rfp cs (revs @ [lim w]) w1 = Inr (revs', w')"
    using Cons.prems(1) blob parsed
    by (simp add: w1_def materialized_def Let_def save_as_def)
  have a1: "a < lim w1" using Cons.prems(2) by (simp add: w1_def)
  note IH = Cons.IH [OF step a1]
  have lw1: "lim w1 = Suc (lim w)" by (simp add: w1_def)
  have hw1: "heap w1 a = heap w a" using Cons.prems(2) by (simp add: w1_def)
  have c1: "revs' = revs @ [lim w ..< lim w + length (c # cs)]"
  proof -
    have "[lim w ..< lim w + length (c # cs)] = lim w # [Suc (lim w) ..< Suc (lim w) + length cs]"
      by (simp add: upt_conv_Cons del: upt_Suc)
    then show ?thesis using IH by (simp add: lw1)
  qed
  have c2: "lim w' = lim w + length (c # cs)" using IH by (simp add: lw1)
  have c3: "cache w' = cache w" using IH by (simp add: w1_def)
  have c4: "\<forall>x < lim w. heap w' x = heap w x"
    using IH by (simp add: lw1 w1_def)
  have c5: "\<exists>parsed. parse_at E rfp ((c # cs) ! i) = Some parsed
              \<and> heap w' (lim w + i) = materialized (heap w a) ((c # cs) ! i) parsed"
    if "i < length (c # cs)" for i
  proof (cases i)
    case 0
    have "heap w' (lim w) = heap w1 (lim w)" using IH by (simp add: lw1)
    then show ?thesis using 0 blob parsed by (simp add: parse_at_def w1_def)
  next
    case (Suc j)
    then have "j < length cs" using that by simp
    with IH obtain p where "parse_at E rfp (cs ! j) = Some p"
      "heap w' (lim w1 + j) = materialized (heap w1 a) (cs ! j) p" by blast
    then show ?thesis using Suc by (simp add: lw1 hw1)
  qed
  show ?case using c1 c2 c3 c4 c5 by blast
qed

lemma materialize_revisions_Inl:
  assumes "materialize_revisions E a rfp cs revs w = Inl (e, w')"
  shows "(\<forall>x < lim w. heap w' x = heap w x) \<and> cache w' = cache w \<and> lim w \<le> lim w'
       \<and> (\<exists>c \<in> set cs. parse_at E rfp c = None)"
  using assms
proof (induction cs arbitrary: revs w)
  case Nil
  then show ?case by simp
next
  case (Cons c cs)
  show ?case
  proof (cases "parse_at E rfp c")
    case None
    then show ?thesis using Cons.prems
      by (auto simp: parse_at_def split: option.splits)
  next
    case (Some parsed)
    then obtain blob where
      blob: "tree c rfp = Some blob" and
      parsed: "read_file E (drop 1 (snd (splitext rfp))) blob = Some parsed"
      by (auto simp: parse_at_def split: option.splits)
    define w1 where "w1 = w\<lparr>heap := (heap w)(lim w := materialized (heap w a) c parsed),
                          lim := Suc (lim w)\<rparr>"
    have step: "materialize_revisions E a rfp cs (revs @ [lim w]) w1 = Inl (e, w')"
      using Cons.prems(1) blob parsed
      by (simp add: w1_def materialized_def Let_def save_as_def)
    from Cons.IH [OF step] show ?thesis by (auto simp: w1_def)
  qed
qed

lemma materialize_revisions_total:
  assumes "\<forall>c \<in> set cs. parse_at E rfp c \<noteq> None"
  shows "\<exists>revs' w'. materialize_revisions E a rfp cs revs w = Inr (revs', w')"
proof (cases "materialize_revisions E a rfp cs revs w")
  case (Inl x)
  obtain e w' where "x = (e, w')" by (cases x)
  with Inl materialize_revisions_Inl [of E a rfp cs revs w e w'] assms show ?thesis by auto
next
  case (Inr y)
  then show ?thesis by (cases y) auto
qed

definition link_step :: "addr \<Rightarrow> string \<Rightarrow> addr list \<Rightarrow> world \<Rightarrow> nat \<times> Commit \<times> addr \<Rightarrow> world" where
  "link_step a rfp revs w x =
     (case x of (index, c, r) \<Rightarrow>
        overwrite_revision_dates
          (w\<lparr>heap := (heap w)(r := (heap w r)\<lparr>git := Some (revision_git a rfp revs index c)\<rparr>)\<rparr>)
          r (revision_git a rfp revs index c))"

lemma overwrite_revision_dates_world:
  "lim (overwrite_revision_dates w a g) = lim w"
  "cache (overwrite_revision_dates w a g) = cache w"
  by (simp_all add: overwrite_revision_dates_def Let_def split: option.split)

lemma overwrite_revision_dates_fields:
  "is_Static (heap (overwrite_revision_dates w a g) x) = is_Static (heap w x)"
  "source_path (heap (overwrite_revision_dates w a g) x) = source_path (heap w x)"
  "override_save_as (heap (overwrite_revision_dates w a g) x) = override_save_as (heap w x)"
  "override_url (heap (overwrite_revision_dates w a g) x) = override_url (heap w x)"
  "settings_save_as (heap (overwrite_revision_dates w a g) x) = settings_save_as (heap w x)"
  "settings_url (heap (overwrite_revision_dates w a g) x) = settings_url (heap w x)"
  "date_format (heap (overwrite_revision_dates w a g) x) = date_format (heap w x)"
  "git (heap (overwrite_revision_dates w a g) x) = git (heap w x)"
  by (simp_all add: overwrite_revision_dates_def Let_def split: option.split)

lemma overwrite_revision_dates_frame:
  "x \<noteq> a \<Longrightarrow> previous_revision g \<noteq> Some x \<Longrightarrow>
   heap (overwrite_revision_dates w a g) x = heap w x"
  by (auto simp: overwrite_revision_dates_def Let_def split: option.split)

lemma link_step_world:
  "lim (link_step a rfp revs w x) = lim w"
  "cache (link_step a rfp revs w x) = cache w"
  by (simp_all add: link_step_def overwrite_revision_dates_world split: prod.split)

lemma link_step_fields:
  "is_Static (heap (link_step a rfp revs w x) y) = is_Static (heap w y)"
  "source_path (heap (link_step a rfp revs w x) y) = source_path (heap w y)"
  "override_save_as (heap (link_step a rfp revs w x) y) = override_save_as (heap w y)"
  "override_url (heap (link_step a rfp revs w x) y) = override_url (heap w y)"
  by (simp_all add: link_step_def overwrite_revision_dates_fields split: prod.split)

lemma link_step_git:
  "git (heap (link_step a rfp revs w (index, c, r)) y) =
     (if y = r then Some (revision_git a rfp revs index c) else git (heap w y))"
  by (simp add: link_step_def overwrite_revision_dates_fields)

lemma previous_revision_git:
  "previous_revision (revision_git a rfp revs index c) =
     (if index > 0 then Some (revs ! (index - 1)) else None)"
  by (simp add: revision_git_def Let_def)

lemma link_step_frame:
  assumes "y \<notin> set revs" and "index < length revs" and "r \<in> set revs"
  shows "heap (link_step a rfp revs w (index, c, r)) y = heap w y"
proof -
  have "y \<noteq> r" using assms by auto
  moreover have "previous_revision (revision_git a rfp revs index c) \<noteq> Some y"
    using assms by (auto simp: previous_revision_git)
  ultimately show ?thesis
    by (simp add: link_step_def overwrite_revision_dates_frame)
qed

lemma link_revisions_eq:
  assumes "\<forall>(index, c, r) \<in> set xs. \<not> is_Static (heap w r) \<and> source_path (heap w r) = sp"
    and "cache w (posix_dirname sp) = Some (Some repository)"
    and "commits_of E repository sp \<noteq> []"
  shows "link_revisions (on_content_object_init E) a rfp revs xs w =
         Returned (foldl (link_step a rfp revs) w xs)"
  using assms(1,2)
proof (induction xs arbitrary: w)
  case Nil
  show ?case by simp
next
  case (Cons x xs)
  obtain index c r where x: "x = (index, c, r)" by (cases x)
  define g where "g = revision_git a rfp revs index c"
  define w1 where "w1 = w\<lparr>heap := (heap w)(r := (heap w r)\<lparr>git := Some g\<rparr>)\<rparr>"
  have r: "\<not> is_Static (heap w r)" "source_path (heap w r) = sp"
    using Cons.prems(1) by (auto simp: x)
  have "on_content_object_init E w1 r = Returned (overwrite_revision_dates w1 r g)"
  proof (rule on_content_object_init_chained)
    show "\<not> is_Static (heap w1 r)" using r by (simp add: w1_def)
    show "cache w1 (posix_dirname (source_path (heap w1 r))) = Some (Some repository)"
      using r Cons.prems(2) by (simp add: w1_def)
    show "commits_of E repository (source_path (heap w1 r)) \<noteq> []"
      using r assms(3) by (simp add: w1_def)
    show "git (heap w1 r) = Some g" by (simp add: w1_def)
  qed
  moreover have "overwrite_revision_dates w1 r g = link_step a rfp revs w x"
    by (simp add: link_step_def x w1_def g_def)
  ultimately have head: "link_revisions (on_content_object_init E) a rfp revs (x # xs) w =
      link_revisions (on_content_object_init E) a rfp revs xs (link_step a rfp revs w x)"
    by (simp add: x w1_def g_def)
  have "link_revisions (on_content_object_init E) a rfp revs xs (link_step a rfp revs w x) =
      Returned (foldl (link_step a rfp revs) (link_step a rfp revs w x) xs)"
  proof (rule Cons.IH)
    show "\<forall>(index, c, r) \<in> set xs. \<not> is_Static (heap (link_step a rfp revs w x) r)
            \<and> source_path (heap (link_step a rfp revs w x) r) = sp"
      using Cons.prems(1) by (auto simp: link_step_fields)
    show "cache (link_step a rfp revs w x) (posix_dirname sp) = Some (Some repository)"
      using Cons.prems(2) by (simp add: link_step_world)
  qed
  with head show ?case by simp
qed

lemma foldl_link_step_world:
  "lim (foldl (link_step a rfp revs) w xs) = lim w"
  "cache (foldl (link_step a rfp revs) w xs) = cache w"
  by (induction xs arbitrary: w) (simp_all add: link_step_world)

lemma foldl_link_step_fields:
  "is_Static (heap (foldl (link_step a rfp revs) w xs) y) = is_Static (heap w y)"
  "source_path (heap (foldl (link_step a rfp revs) w xs) y) = source_path (heap w y)"
  "override_save_as (heap (foldl (link_step a rfp revs) w xs) y) = override_save_as (heap w y)"
  "override_url (heap (foldl (link_step a rfp revs) w xs) y) = override_url (heap w y)"
  by (induction xs arbitrary: w) (simp_all add: link_step_fields)

lemma foldl_link_step_frame:
  assumes "y \<notin> set revs" and "\<forall>(index, c, r) \<in> set xs. index < length revs \<and> r \<in> set revs"
  shows "heap (foldl (link_step a rfp revs) w xs) y = heap w y"
  using assms(2)
proof (induction xs arbitrary: w)
  case Nil
  show ?case by simp
next
  case (Cons x xs)
  obtain index c r where x: "x = (index, c, r)" by (cases x)
  have "heap (link_step a rfp revs w x) y = heap w y"
    unfolding x using assms(1) Cons.prems by (intro link_step_frame) (auto simp: x)
  moreover have "heap (foldl (link_step a rfp revs) (link_step a rfp revs w x) xs) y =
      heap (link_step a rfp revs w x) y"
    using Cons.prems by (intro Cons.IH) auto
  ultimately show ?case by simp
qed

lemma foldl_link_step_git_other:
  assumes "y \<notin> (\<lambda>x. snd (snd x)) ` set xs"
  shows "git (heap (foldl (link_step a rfp revs) w xs) y) = git (heap w y)"
  using assms
proof (induction xs arbitrary: w)
  case Nil
  show ?case by simp
next
  case (Cons x xs)
  obtain index c r where x: "x = (index, c, r)" by (cases x)
  from Cons.prems have "y \<noteq> r" and rest: "y \<notin> (\<lambda>x. snd (snd x)) ` set xs"
    by (auto simp: x)
  then show ?case using Cons.IH [OF rest] by (simp add: x link_step_git)
qed

lemma foldl_link_step_git:
  assumes "distinct (map (\<lambda>x. snd (snd x)) xs)" and "(index, c, r) \<in> set xs"
  shows "git (heap (foldl (link_step a rfp revs) w xs) r) = Some (revision_git a rfp revs index c)"
  using assms
proof (induction xs arbitrary: w)
  case Nil
  then show ?case by simp
next
  case (Cons x xs)
  show ?case
  proof (cases "x = (index, c, r)")
    case True
    have "r \<notin> (\<lambda>x. snd (snd x)) ` set xs" using Cons.prems(1) True by auto
    then show ?thesis
      by (simp add: True foldl_link_step_git_other link_step_git)
  next
    case False
    then have "(index, c, r) \<in> set xs" using Cons.prems(2) by simp
    moreover have "distinct (map (\<lambda>x. snd (snd x)) xs)" using Cons.prems(1) by simp
    ultimately show ?thesis using Cons.IH by simp
  qed
qed

lemma infer_date_world:
  "lim (infer_date fc w a) = lim w"
  "cache (infer_date fc w a) = cache w"
  "x \<noteq> a \<Longrightarrow> heap (infer_date fc w a) x = heap w x"
  by (simp_all add: infer_date_def Let_def)

lemma infer_modified_world:
  "lim (infer_modified fc lc w a) = lim w"
  "cache (infer_modified fc lc w a) = cache w"
  "x \<noteq> a \<Longrightarrow> heap (infer_modified fc lc w a) x = heap w x"
  by (simp_all add: infer_modified_def Let_def)

definition inferred :: "Commit \<Rightarrow> Commit \<Rightarrow> Content \<Rightarrow> Content" where
  "inferred fc lc content =
     (let c1 = (if date content = None
                then content\<lparr>date := Some (fromtimestamp (authored_date fc)),
                       locale_date := Some (strftime (fromtimestamp (authored_date fc))
                                              (date_format content))\<rparr>
                else content)
      in if hexsha fc \<noteq> hexsha lc \<and> modified content = None
         then c1\<lparr>modified := Some (fromtimestamp (authored_date lc)),
                locale_modified := Some (strftime (fromtimestamp (authored_date lc))
                                           (date_format content))\<rparr>
         else c1)"

lemma heap_infer:
  "heap (infer_modified fc lc (infer_date fc w a) a) a = inferred fc lc (heap w a)"
  by (auto simp: infer_modified_def infer_date_def inferred_def Let_def)

lemma inferred_fields:
  "is_Static (inferred fc lc c) = is_Static c"
  "source_path (inferred fc lc c) = source_path c"
  "git (inferred fc lc c) = git c"
  "save_as (inferred fc lc c) = save_as c"
  "url (inferred fc lc c) = url c"
  by (simp_all add: inferred_def Let_def save_as_def url_def cong: option.case_cong)

lemma revision_save_as_inferred:
  "revision_save_as (inferred fc lc c) k = revision_save_as c k"
  by (simp add: revision_save_as_def inferred_fields)

lemma materialized_fields:
  "is_Static (materialized content c parsed) = is_Static content"
  "source_path (materialized content c parsed) = source_path content"
  "override_save_as (materialized content c parsed) = Some (revision_save_as content c)"
  "override_url (materialized content c parsed) = Some (posix_dirname (revision_save_as content c))"
  by (simp_all add: materialized_def)

lemma attach_live_git_world:
  "lim (attach_live_git lc rfp revs w a) = lim w"
  "cache (attach_live_git lc rfp revs w a) = cache w"
  "x \<noteq> a \<Longrightarrow> heap (attach_live_git lc rfp revs w a) x = heap w x"
  "heap (attach_live_git lc rfp revs w a) a =
     (heap w a)\<lparr>git := Some \<lparr>commit = lc, file_path = rfp, revisions = revs,
        previous_revision = (if length revs > 1 then Some (revs ! (length revs - 2)) else None),
        next_revision = None\<rparr>\<rparr>"
  by (simp_all add: attach_live_git_def Let_def)

lemma on_content_object_init_fresh:
  assumes "\<not> is_Static (heap w a)"
    and "cached_discover_repository E w (posix_dirname (source_path (heap w a))) = (Inr (Some repository), w1)"
    and "commits_of E repository (source_path (heap w a)) \<noteq> []"
    and "git (heap w a) = None"
  shows "on_content_object_init E w a =
     (let rfp = make_repository_file_path E repository (source_path (heap w a));
          commits = commits_of E repository (source_path (heap w a));
          w2 = infer_modified (hd commits) (last commits) (infer_date (hd commits) w1 a) a
      in case materialize_revisions E a rfp commits [] w2 of
           Inl (e, w3) \<Rightarrow> Raised e w3
         | Inr (revs, w3) \<Rightarrow>
             (case link_revisions (on_content_object_init E) a rfp revs
                     (zip [0 ..< length revs] (zip commits revs)) w3 of
                Raised e w4 \<Rightarrow> Raised e w4
              | Returned w4 \<Rightarrow> Returned (attach_live_git (last commits) rfp revs w4 a)))"
proof -
  have h: "heap w1 = heap w" using assms(2) by (rule cached_discover_repository_fills)
  obtain newest_first where
    it: "iter_commits repository (make_repository_file_path E repository (source_path (heap w a)))
           = Inr newest_first"
    and c: "commits_of E repository (source_path (heap w a)) = rev newest_first"
    using assms(3) by (auto simp: commits_of_def split: sum.splits)
  show ?thesis
    using assms(1,4) assms(3) [unfolded c]
    by (subst on_content_object_init.simps)
       (simp add: assms(2) h it c Let_def cong: sum.case_cong prod.case_cong outcome.case_cong)
qed

lemma map_snd_snd_zip:
  "length as = length cs \<Longrightarrow> length bs = length cs \<Longrightarrow>
   map (\<lambda>x. snd (snd x)) (zip as (zip bs cs)) = cs"
proof -
  assume l: "length as = length cs" "length bs = length cs"
  have "map (\<lambda>x. snd (snd x)) (zip as (zip bs cs)) = map snd (map snd (zip as (zip bs cs)))"
    by simp
  also have "\<dots> = map snd (zip bs cs)" using l by simp
  also have "\<dots> = cs" using l by simp
  finally show ?thesis .
qed

lemma fresh_document_chain:
  assumes live: "a < lim w" "\<not> is_Static (heap w a)" "git (heap w a) = None"
    and repo: "cached_discover_repository E w (posix_dirname (source_path (heap w a))) = (Inr (Some repository), w1)"
    and commits: "commits = commits_of E repository (source_path (heap w a))" "commits \<noteq> []"
    and rfp: "rfp = make_repository_file_path E repository (source_path (heap w a))"
    and mat: "materialize_revisions E a rfp commits []
                (infer_modified (hd commits) (last commits) (infer_date (hd commits) w1 a) a)
              = Inr (revs, w3)"
  shows "\<exists>w'. on_content_object_init E w a = Returned w'
     \<and> revs = [lim w ..< lim w + length commits]
     \<and> lim w' = lim w + length commits
     \<and> (\<forall>x < lim w. x \<noteq> a \<longrightarrow> heap w' x = heap w x)
     \<and> heap w' a = (inferred (hd commits) (last commits) (heap w a))
          \<lparr>git := Some \<lparr>commit = last commits, file_path = rfp, revisions = revs,
             previous_revision = (if length revs > 1 then Some (revs ! (length revs - 2)) else None),
             next_revision = None\<rparr>\<rparr>
     \<and> (\<forall>i < length commits.
           git (heap w' (revs ! i)) = Some (revision_git a rfp revs i (commits ! i))
         \<and> override_save_as (heap w' (revs ! i)) = Some (revision_save_as (heap w a) (commits ! i))
         \<and> override_url (heap w' (revs ! i)) =
             Some (posix_dirname (revision_save_as (heap w a) (commits ! i))))"
proof -
  define N where "N = length commits"
  define sp where "sp = source_path (heap w a)"
  define w2 where "w2 = infer_modified (hd commits) (last commits) (infer_date (hd commits) w1 a) a"
  define xs where "xs = zip [0 ..< length revs] (zip commits revs)"
  define wf where "wf = foldl (link_step a rfp revs) w3 xs"
  define w' where "w' = attach_live_git (last commits) rfp revs wf a"
  note fills = cached_discover_repository_fills [OF repo]
  have lim2: "lim w2 = lim w"
    by (simp add: w2_def infer_modified_world infer_date_world fills)
  have cache2: "cache w2 = cache w1"
    by (simp add: w2_def infer_modified_world infer_date_world)
  have heap2a: "heap w2 a = inferred (hd commits) (last commits) (heap w a)"
    by (simp add: w2_def heap_infer fills)
  have heap2: "heap w2 x = heap w x" if "x \<noteq> a" for x
    using that by (simp add: w2_def infer_modified_world infer_date_world fills)
  have a2: "a < lim w2" using live(1) lim2 by simp
  from materialize_revisions_Inr [OF mat [folded w2_def] a2]
  have revs: "revs = [lim w ..< lim w + N]"
    and lim3: "lim w3 = lim w + N"
    and cache3: "cache w3 = cache w2"
    and heap3: "\<And>x. x < lim w \<Longrightarrow> heap w3 x = heap w2 x"
    and obj3: "\<And>i. i < N \<Longrightarrow> \<exists>parsed. parse_at E rfp (commits ! i) = Some parsed
                 \<and> heap w3 (lim w + i) = materialized (heap w2 a) (commits ! i) parsed"
    by (simp_all add: lim2 N_def)
  have len: "length revs = N" by (simp add: revs)
  have nth: "revs ! i = lim w + i" if "i < N" for i using that by (simp add: revs)
  have anot: "a \<notin> set revs" using live(1) by (simp add: revs)
  have dist: "distinct revs" by (simp add: revs)
  have xs_mem: "index < N \<and> c = commits ! index \<and> r = revs ! index"
    if "(index, c, r) \<in> set xs" for index c r
    using that by (auto simp: xs_def len N_def in_set_zip)
  have mem_xs: "(i, commits ! i, revs ! i) \<in> set xs" if "i < N" for i
    unfolding xs_def in_set_zip
    by (rule exI [of _ i]) (use that in \<open>simp add: len N_def\<close>)
  have inv: "\<forall>(index, c, r) \<in> set xs. \<not> is_Static (heap w3 r) \<and> source_path (heap w3 r) = sp"
  proof (clarify, rule conjI)
    fix index c r assume "(index, c, r) \<in> set xs"
    then have i: "index < N" "r = lim w + index" using xs_mem nth by auto
    from obj3 [OF i(1)] obtain parsed where
      "heap w3 r = materialized (heap w2 a) (commits ! index) parsed" using i by auto
    then show "\<not> is_Static (heap w3 r)" "source_path (heap w3 r) = sp"
      using live(2) by (simp_all add: materialized_fields heap2a inferred_fields sp_def)
  qed
  have cache3': "cache w3 (posix_dirname sp) = Some (Some repository)"
    using fills(1) by (simp add: cache3 cache2 sp_def)
  have ne: "commits_of E repository sp \<noteq> []" using commits by (simp add: sp_def)
  have link: "link_revisions (on_content_object_init E) a rfp revs xs w3 = Returned wf"
    unfolding wf_def by (rule link_revisions_eq [OF inv cache3' ne])
  have run: "on_content_object_init E w a = Returned w'"
    using live(2,3) commits
    by (subst on_content_object_init_fresh [OF live(2) repo _ live(3)])
       (simp_all add: Let_def rfp [symmetric] commits(1) [symmetric] mat link [unfolded xs_def] w'_def)
  have limf: "lim wf = lim w + N" by (simp add: wf_def foldl_link_step_world lim3)
  have frame_ok: "\<forall>(index, c, r) \<in> set xs. index < length revs \<and> r \<in> set revs"
  proof clarify
    fix index c r assume "(index, c, r) \<in> set xs"
    then have "index < N" "r = revs ! index" using xs_mem by auto
    then show "index < length revs \<and> r \<in> set revs" by (simp add: len)
  qed
  have heapf: "heap wf x = heap w3 x" if "x \<notin> set revs" for x
    unfolding wf_def using that frame_ok by (rule foldl_link_step_frame)
  have c3: "lim w' = lim w + length commits"
    by (simp add: w'_def attach_live_git_world limf N_def)
  have c4: "\<forall>x < lim w. x \<noteq> a \<longrightarrow> heap w' x = heap w x"
  proof (intro allI impI)
    fix x assume x: "x < lim w" "x \<noteq> a"
    then have "x \<notin> set revs" by (simp add: revs)
    then show "heap w' x = heap w x"
      using x by (simp add: w'_def attach_live_git_world heapf heap3 heap2)
  qed
  have c5: "heap w' a = (inferred (hd commits) (last commits) (heap w a))
          \<lparr>git := Some \<lparr>commit = last commits, file_path = rfp, revisions = revs,
             previous_revision = (if length revs > 1 then Some (revs ! (length revs - 2)) else None),
             next_revision = None\<rparr>\<rparr>"
    using live(1) by (simp add: w'_def attach_live_git_world heapf [OF anot] heap3 heap2a)
  have dmap: "distinct (map (\<lambda>x. snd (snd x)) xs)"
    unfolding xs_def using dist by (simp add: map_snd_snd_zip len N_def)
  have c6: "git (heap w' (revs ! i)) = Some (revision_git a rfp revs i (commits ! i))
         \<and> override_save_as (heap w' (revs ! i)) = Some (revision_save_as (heap w a) (commits ! i))
         \<and> override_url (heap w' (revs ! i)) =
             Some (posix_dirname (revision_save_as (heap w a) (commits ! i)))"
    if "i < length commits" for i
  proof -
    have i: "i < N" using that by (simp add: N_def)
    have ra: "revs ! i \<noteq> a" using anot i len by (metis nth_mem)
    from obj3 [OF i] obtain parsed where
      obj: "heap w3 (revs ! i) = materialized (heap w2 a) (commits ! i) parsed"
      using nth [OF i] by auto
    have "git (heap wf (revs ! i)) = Some (revision_git a rfp revs i (commits ! i))"
      unfolding wf_def by (rule foldl_link_step_git [OF dmap mem_xs [OF i]])
    moreover have "override_save_as (heap wf (revs ! i)) = Some (revision_save_as (heap w a) (commits ! i))"
      by (simp add: wf_def foldl_link_step_fields obj materialized_fields heap2a
           revision_save_as_inferred)
    moreover have "override_url (heap wf (revs ! i)) =
        Some (posix_dirname (revision_save_as (heap w a) (commits ! i)))"
      by (simp add: wf_def foldl_link_step_fields obj materialized_fields heap2a
           revision_save_as_inferred)
    ultimately show ?thesis using ra by (simp add: w'_def attach_live_git_world)
  qed
  show ?thesis
    using run revs c3 c4 c5 c6 by (auto simp: N_def)
qed

section \<open>Output paths\<close>

text \<open>
  \<open>spec_save_as\<close> follows the wording of the specification, where the per-document segment is
  omitted when the root is \<open>index\<close>; the source passes an empty component instead.
  \<open>path_segments\<close> splits a path at its separators. \<open>is_hex\<close> is the format of a commit hash.
\<close>

definition spec_save_as :: "string \<Rightarrow> string \<Rightarrow> string \<Rightarrow> string" where
  "spec_save_as live_url live_save_as hash =
     (let base = (if endswith live_url sep then live_url else posix_dirname live_url);
          root = fst (splitext (posix_basename live_save_as));
          ext = snd (splitext (posix_basename live_save_as));
          segment = (if root = ''index'' then [] else [root])
      in posix_join base (segment @ [hash, ''index'' @ ext]))"

fun path_segments :: "string \<Rightarrow> string list" where
  "path_segments [] = [[]]"
| "path_segments (x # xs) =
     (if x = sep then [] # path_segments xs
      else (case path_segments xs of [] \<Rightarrow> [[x]] | s # ss \<Rightarrow> (x # s) # ss))"

definition is_hex :: "string \<Rightarrow> bool" where
  "is_hex h = (h \<noteq> [] \<and> list_all (\<lambda>x. x \<in> set ''0123456789abcdef'') h)"

lemma join_step_Nil_absorb: "join_step (join_step base []) h = join_step base h"
  by (auto simp: join_step_def startswith_def endswith_def)

lemma revision_save_as_spec:
  "revision_save_as c k = spec_save_as (url c) (save_as c) (hexsha k)"
  by (simp add: revision_save_as_def spec_save_as_def Let_def posix_join_def join_step_Nil_absorb)

lemma path_segments_nonempty: "path_segments xs \<noteq> []"
  by (induction xs) (auto split: list.split)

lemma path_segments_no_sep: "sep \<notin> set h \<Longrightarrow> path_segments h = [h]"
  by (induction h) auto

lemma path_segments_append:
  "path_segments (p @ sep # r) = path_segments p @ path_segments r"
  using path_segments_nonempty by (induction p) (auto split: list.split)

lemma segment_of_path:
  assumes "p = [] \<or> last p = sep" and "sep \<notin> set h"
  shows "h \<in> set (path_segments (p @ h @ sep # r))"
proof (cases "p = []")
  case True
  then show ?thesis
    using path_segments_append [of h r] assms(2) by (simp add: path_segments_no_sep)
next
  case False
  then have "p = butlast p @ [sep]" using assms(1) by (metis append_butlast_last_id)
  then have "p @ h @ sep # r = butlast p @ sep # (h @ sep # r)" 
    by (metis append.assoc append_Cons append_Nil)
  then have "path_segments (p @ h @ sep # r) =
      path_segments (butlast p) @ path_segments h @ path_segments r"
    by (simp only: path_segments_append)
  then show ?thesis
    using assms(2) by (simp add: path_segments_no_sep)
qed

lemma is_hex_no_sep: "is_hex h \<Longrightarrow> h \<noteq> [] \<and> sep \<notin> set h"
  by (auto simp: is_hex_def sep_def list_all_iff)

definition join_prefix :: "string \<Rightarrow> string" where
  "join_prefix q = (if q = [] \<or> endswith q sep then q else q @ [sep])"

lemma join_prefix_ends: "join_prefix q = [] \<or> last (join_prefix q) = sep"
  by (auto simp: join_prefix_def endswith_def)

lemma join_hash_index:
  assumes "h \<noteq> []" and "sep \<notin> set h"
  shows "posix_join base [seg, h, ''index'' @ ext] =
         join_prefix (join_step base seg) @ h @ sep # ''index'' @ ext"
proof -
  have nh: "\<not> startswith h sep" using assms by (cases h) (auto simp: startswith_def)
  have 1: "join_step (join_step base seg) h = join_prefix (join_step base seg) @ h"
    using nh by (simp add: join_step_def [of _ h] join_prefix_def)
  have ni: "\<not> startswith (''index'' @ ext) sep" by (simp add: startswith_def sep_def)
  have "last h \<in> set h" using assms(1) by (rule last_in_set)
  then have "last h \<noteq> sep" using assms(2) by auto
  then have ne: "\<not> endswith (join_prefix (join_step base seg) @ h) sep"
    using assms(1) by (simp add: endswith_def)
  have 2: "join_step (join_prefix (join_step base seg) @ h) (''index'' @ ext) =
        (join_prefix (join_step base seg) @ h) @ sep # ''index'' @ ext"
    using ni ne assms(1) unfolding join_step_def [of _ "''index'' @ ext"] by simp
  show ?thesis by (simp only: posix_join_def foldl.simps 1 2 append_assoc)
qed

lemma revision_save_as_shape:
  assumes "hexsha k \<noteq> []" and "sep \<notin> set (hexsha k)"
  shows "revision_save_as c k =
     join_prefix (join_step (if endswith (url c) sep then url c else posix_dirname (url c))
        (if fst (splitext (posix_basename (save_as c))) \<noteq> ''index''
         then fst (splitext (posix_basename (save_as c))) else []))
     @ hexsha k @ sep # ''index'' @ snd (splitext (posix_basename (save_as c)))"
  unfolding revision_save_as_def Let_def by (rule join_hash_index [OF assms])

lemma revision_save_as_distinct:
  assumes "is_hex (hexsha k1)" and "is_hex (hexsha k2)" and "hexsha k1 \<noteq> hexsha k2"
  shows "revision_save_as c k1 \<noteq> revision_save_as c k2"
proof -
  note s1 = revision_save_as_shape [of k1 c] and s2 = revision_save_as_shape [of k2 c]
  have a: "hexsha k1 \<noteq> []" "sep \<notin> set (hexsha k1)" "hexsha k2 \<noteq> []" "sep \<notin> set (hexsha k2)"
    using assms is_hex_no_sep by auto
  show ?thesis
  proof
    assume "revision_save_as c k1 = revision_save_as c k2"
    then have "hexsha k1 @ sep # ''index'' @ snd (splitext (posix_basename (save_as c))) =
               hexsha k2 @ sep # ''index'' @ snd (splitext (posix_basename (save_as c)))"
      unfolding s1 [OF a(1,2)] s2 [OF a(3,4)] by simp
    then have "hexsha k1 = hexsha k2" by simp
    with assms(3) show False by simp
  qed
qed

lemma revision_save_as_segment:
  assumes "is_hex (hexsha k)"
  shows "hexsha k \<in> set (path_segments (revision_save_as c k))"
proof -
  have a: "hexsha k \<noteq> []" "sep \<notin> set (hexsha k)" using assms is_hex_no_sep by auto
  show ?thesis
    unfolding revision_save_as_shape [OF a]
    using join_prefix_ends a(2) by (intro segment_of_path) auto
qed

section \<open>Ancestor directories\<close>

text \<open>
  Following the wording of the specification: the ancestor directories of a path are the path
  and its successive directory names, up to the directory that is its own directory name;
  \<open>first_root\<close> is the first repository found there, if any. A path has no trailing separator
  when it is empty, does not end in a separator, or consists of separators only. A path
  exists, with all its ancestor directories, when no probe along them reports a missing path.
\<close>

definition is_root :: "(string \<Rightarrow> probe) \<Rightarrow> string \<Rightarrow> bool" where
  "is_root Repo d = (case Repo d of Opened repository \<Rightarrow> True | _ \<Rightarrow> False)"

definition first_root :: "(string \<Rightarrow> probe) \<Rightarrow> string list \<Rightarrow> Repo option" where
  "first_root Repo ds =
     (case find (is_root Repo) ds of
        None \<Rightarrow> None
      | Some d \<Rightarrow> (case Repo d of Opened repository \<Rightarrow> Some repository | _ \<Rightarrow> None))"

definition path_exists :: "(string \<Rightarrow> probe) \<Rightarrow> string list \<Rightarrow> bool" where
  "path_exists Repo ds = list_all (\<lambda>d. Repo d \<noteq> NoSuchPath) ds"

definition no_trailing_sep :: "string \<Rightarrow> bool" where
  "no_trailing_sep p = (p = [] \<or> last p \<noteq> sep \<or> set p \<subseteq> {sep})"

lemma rfind_succ:
  "nat (rfind c p + 1) = length p - length (takeWhile (\<lambda>x. x \<noteq> c) (rev p))"
proof (cases "c \<in> set p")
  case True
  then have "dropWhile (\<lambda>x. x \<noteq> c) (rev p) \<noteq> []" by (simp add: dropWhile_eq_Nil_conv)
  then have "length (dropWhile (\<lambda>x. x \<noteq> c) (rev p)) > 0" by simp
  moreover have "length (rev p) =
      length (takeWhile (\<lambda>x. x \<noteq> c) (rev p)) + length (dropWhile (\<lambda>x. x \<noteq> c) (rev p))"
    by (simp only: length_append [symmetric] takeWhile_dropWhile_id)
  ultimately have "length (takeWhile (\<lambda>x. x \<noteq> c) (rev p)) < length p" by simp
  then show ?thesis using True by (simp add: rfind_def)
next
  case False
  then have "\<forall>x \<in> set (rev p). x \<noteq> c" by auto
  then have "takeWhile (\<lambda>x. x \<noteq> c) (rev p) = rev p" by (simp only: takeWhile_eq_all_conv)
  then have "length (takeWhile (\<lambda>x. x \<noteq> c) (rev p)) = length p" by (simp only: length_rev)
  then show ?thesis using False by (simp add: rfind_def)
qed

lemma split_rev_parts:
  "p = rev (dropWhile P (rev p)) @ rev (takeWhile P (rev p))"
proof -
  have "rev p = takeWhile P (rev p) @ dropWhile P (rev p)" by simp
  then have "rev (rev p) = rev (takeWhile P (rev p) @ dropWhile P (rev p))" by (rule arg_cong)
  then show ?thesis by (simp only: rev_rev_ident rev_append)
qed

lemma length_rev_dropWhile:
  "length (rev (dropWhile (\<lambda>x. x \<noteq> c) (rev p))) = nat (rfind c p + 1)"
proof -
  have "length (rev p) =
      length (takeWhile (\<lambda>x. x \<noteq> c) (rev p)) + length (dropWhile (\<lambda>x. x \<noteq> c) (rev p))"
    by (simp only: length_append [symmetric] takeWhile_dropWhile_id)
  then show ?thesis unfolding rfind_succ by simp
qed

lemma take_rfind:
  "take (nat (rfind c p + 1)) p = rev (dropWhile (\<lambda>x. x \<noteq> c) (rev p))"
proof -
  have "take (nat (rfind c p + 1))
          (rev (dropWhile (\<lambda>x. x \<noteq> c) (rev p)) @ rev (takeWhile (\<lambda>x. x \<noteq> c) (rev p))) =
        rev (dropWhile (\<lambda>x. x \<noteq> c) (rev p))"
    using length_rev_dropWhile [of c p] by simp
  then show ?thesis by (simp only: split_rev_parts [symmetric])
qed

lemma drop_rfind:
  "drop (nat (rfind c p + 1)) p = rev (takeWhile (\<lambda>x. x \<noteq> c) (rev p))"
proof -
  have "drop (nat (rfind c p + 1))
          (rev (dropWhile (\<lambda>x. x \<noteq> c) (rev p)) @ rev (takeWhile (\<lambda>x. x \<noteq> c) (rev p))) =
        rev (takeWhile (\<lambda>x. x \<noteq> c) (rev p))"
    using length_rev_dropWhile [of c p] by simp
  then show ?thesis by (simp only: split_rev_parts [symmetric])
qed

lemma posix_dirname_split: "posix_dirname p = fst (posix_split p)"
  by (simp add: posix_dirname_def posix_split_def Let_def)

lemma posix_split_tail_empty:
  "snd (posix_split p) = [] \<longleftrightarrow> p = [] \<or> last p = sep"
proof -
  have "snd (posix_split p) = rev (takeWhile (\<lambda>x. x \<noteq> sep) (rev p))"
    by (simp add: posix_split_def Let_def drop_rfind)
  moreover have "takeWhile (\<lambda>x. x \<noteq> sep) (rev p) = [] \<longleftrightarrow> p = [] \<or> last p = sep"
    by (cases p rule: rev_cases) auto
  ultimately show ?thesis by simp
qed

lemma all_sep_iff: "(p = replicate (length p) c) = (set p \<subseteq> {c})"
proof
  assume "p = replicate (length p) c"
  then have "set p = set (replicate (length p) c)" by (rule arg_cong)
  then show "set p \<subseteq> {c}" by (auto split: if_splits)
next
  assume "set p \<subseteq> {c}"
  then have "\<forall>y \<in> set p. y = c" by auto
  then show "p = replicate (length p) c" by (simp only: replicate_length_same)
qed

lemma posix_dirname_all_sep:
  assumes "set p \<subseteq> {sep}"
  shows "posix_dirname p = p"
proof -
  have "dropWhile (\<lambda>x. x \<noteq> sep) (rev p) = rev p"
    using assms by (cases "rev p") auto
  then have "take (nat (rfind sep p + 1)) p = p" by (simp add: take_rfind)
  then show ?thesis using assms by (simp add: posix_dirname_def Let_def all_sep_iff)
qed

lemma rstrip_prefix: "\<exists>s. x = rstrip c x @ s"
proof -
  have "x = rev (dropWhile (\<lambda>y. y = c) (rev x)) @ rev (takeWhile (\<lambda>y. y = c) (rev x))"
    by (rule split_rev_parts)
  then show ?thesis unfolding rstrip_def by (rule exI)
qed

lemma rstrip_last:
  assumes "rstrip c x \<noteq> []"
  shows "last (rstrip c x) \<noteq> c"
proof -
  have ne: "dropWhile (\<lambda>y. y = c) (rev x) \<noteq> []" using assms by (simp add: rstrip_def)
  then have "\<not> hd (dropWhile (\<lambda>y. y = c) (rev x)) = c" by (rule hd_dropWhile)
  moreover have "last (rev (dropWhile (\<lambda>y. y = c) (rev x))) = hd (dropWhile (\<lambda>y. y = c) (rev x))"
    using ne by (simp only: last_rev)
  ultimately show ?thesis by (simp add: rstrip_def)
qed

lemma posix_dirname_prefix: "\<exists>s. p = posix_dirname p @ s"
proof -
  define head where "head = take (nat (rfind sep p + 1)) p"
  have 1: "p = head @ drop (nat (rfind sep p + 1)) p" by (simp add: head_def)
  obtain s where 2: "head = rstrip sep head @ s" using rstrip_prefix by blast
  have "posix_dirname p = head \<or> posix_dirname p = rstrip sep head"
    by (simp add: posix_dirname_def Let_def head_def)
  then show ?thesis
  proof
    assume "posix_dirname p = head"
    with 1 show ?thesis by metis
  next
    assume "posix_dirname p = rstrip sep head"
    with 1 2 show ?thesis by (metis append.assoc)
  qed
qed

lemma posix_dirname_shorter:
  "posix_dirname p \<noteq> p \<Longrightarrow> length (posix_dirname p) < length p"
proof -
  assume ne: "posix_dirname p \<noteq> p"
  obtain s where s: "p = posix_dirname p @ s" using posix_dirname_prefix by blast
  with ne have "s \<noteq> []" by auto
  then have "length (posix_dirname p) < length (posix_dirname p @ s)" by simp
  with s show ?thesis by simp
qed

function ancestors :: "string \<Rightarrow> string list" where
  "ancestors p = (if posix_dirname p = p then [p] else p # ancestors (posix_dirname p))"
  by pat_completeness auto
termination
  by (relation "measure length") (auto simp: posix_dirname_shorter)

declare ancestors.simps [simp del]

lemma no_trailing_sep_dirname: "no_trailing_sep (posix_dirname p)"
proof -
  define head where "head = take (nat (rfind sep p + 1)) p"
  show ?thesis
  proof (cases "head \<noteq> [] \<and> \<not> set head \<subseteq> {sep}")
    case True
    then have d: "posix_dirname p = rstrip sep head"
      unfolding posix_dirname_def Let_def head_def [symmetric] all_sep_iff by simp
    show ?thesis unfolding d no_trailing_sep_def using rstrip_last by blast
  next
    case False
    then have d: "posix_dirname p = head"
      unfolding posix_dirname_def Let_def head_def [symmetric] all_sep_iff by auto
    show ?thesis unfolding d no_trailing_sep_def using False by blast
  qed
qed

lemma first_root_Cons:
  "first_root Repo (d # ds) =
     (case Repo d of Opened repository \<Rightarrow> Some repository | _ \<Rightarrow> first_root Repo ds)"
  by (auto simp: first_root_def is_root_def split: probe.split)

lemma ancestors_Cons: "\<exists>ds. ancestors p = p # ds"
  by (subst ancestors.simps) simp

lemma discover_repository_missing:
  "Repo p = NoSuchPath \<Longrightarrow> discover_repository Repo p = Inl (NoSuchPathError p)"
  by (subst discover_repository.simps) simp

lemma discover_repository_ancestors:
  "no_trailing_sep p \<Longrightarrow> path_exists Repo (ancestors p) \<Longrightarrow>
   discover_repository Repo p = Inr (first_root Repo (ancestors p))"
proof (induction Repo p rule: discover_repository.induct)
  case (1 Repo root)
  have here: "Repo root \<noteq> NoSuchPath"
    using "1.prems"(2) ancestors_Cons [of root] by (auto simp: path_exists_def)
  show ?case
  proof (cases "Repo root")
    case (Opened r)
    obtain ds where "ancestors root = root # ds" using ancestors_Cons by blast
    then show ?thesis using Opened
      by (subst discover_repository.simps) (simp add: first_root_Cons)
  next
    case NoSuchPath
    with here show ?thesis by simp
  next
    case InvalidGitRepositoryError
    obtain root' tail where sp: "posix_split root = (root', tail)" by (cases "posix_split root")
    then have r': "root' = posix_dirname root" by (simp add: posix_dirname_split)
    show ?thesis
    proof (cases "tail = []")
      case True
      then have "root = [] \<or> last root = sep" using posix_split_tail_empty [of root] sp by simp
      with "1.prems"(1) have "set root \<subseteq> {sep}"
        by (auto simp: no_trailing_sep_def)
      then have "posix_dirname root = root" by (rule posix_dirname_all_sep)
      then have "ancestors root = [root]" by (subst ancestors.simps) simp
      then show ?thesis using InvalidGitRepositoryError sp True
        by (subst discover_repository.simps) (simp add: first_root_Cons first_root_def)
    next
      case False
      have "length root' < length root" using sp False by (rule posix_split_shorter)
      then have ne: "posix_dirname root \<noteq> root" using r' by auto
      have anc: "ancestors root = root # ancestors root'"
        using ne r' by (subst ancestors.simps) simp
      have ex: "path_exists Repo (ancestors root')"
        using "1.prems"(2) by (simp add: anc path_exists_def)
      have nt: "no_trailing_sep root'" by (simp add: r' no_trailing_sep_dirname)
      have "discover_repository Repo root' = Inr (first_root Repo (ancestors root'))"
        using InvalidGitRepositoryError sp [symmetric] False nt ex by (rule "1.IH")
      then show ?thesis using InvalidGitRepositoryError sp False
        by (subst discover_repository.simps) (simp add: anc first_root_Cons)
    qed
  qed
qed

lemma cached_discover_repository_again:
  assumes "cached_discover_repository E w path = (Inr result, w1)"
  shows "cached_discover_repository E' w1 path = (Inr result, w1)"
  using assms
  by (auto simp: cached_discover_repository_def Let_def split: option.splits sum.splits)

section \<open>The claims\<close>

text \<open>
  A concrete scenario: a repository at \<^verbatim>\<open>/repo\<close> with three commits of
  \<^verbatim>\<open>content/post.md\<close>, a reader that accepts the format \<^verbatim>\<open>md\<close>, and a live document at
  address 0 in a world whose cache is empty.
\<close>

definition parsed0 :: "string \<Rightarrow> Content" where
  "parsed0 blob =
     \<lparr>is_Static = False, source_path = ''/tmp/tmpfile'', date = None, locale_date = None,
      modified = None, locale_modified = None, date_format = ''%Y-%m-%d'',
      settings_save_as = blob @ ''.html'', settings_url = blob @ ''.html'',
      override_save_as = None, override_url = None, git = None\<rparr>"

definition commit0 :: "string \<Rightarrow> int \<Rightarrow> string \<Rightarrow> Commit" where
  "commit0 h t blob =
     \<lparr>hexsha = h, authored_date = t,
      tree = (\<lambda>p. if p = ''content/post.md'' then Some blob else None)\<rparr>"

definition repo0 :: Repo where
  "repo0 =
     \<lparr>working_dir = ''/repo'',
      iter_commits = (\<lambda>p. if p = ''content/post.md''
         then Inr [commit0 ''c2c2'' 300 ''v3'', commit0 ''b1b1'' 200 ''v2'',
                   commit0 ''a0a0'' 100 ''v1'']
         else Inr [])\<rparr>"

definition env0 :: env where
  "env0 =
     \<lparr>git_Repo = (\<lambda>d. if d = ''/repo'' then Opened repo0 else InvalidGitRepositoryError),
      relpath = (\<lambda>p start. drop (Suc (length start)) p),
      read_file = (\<lambda>fmt blob. if fmt = ''md'' then Some (parsed0 blob) else None)\<rparr>"

definition live0 :: Content where
  "live0 =
     \<lparr>is_Static = False, source_path = ''/repo/content/post.md'', date = None,
      locale_date = None, modified = None, locale_modified = None, date_format = ''%Y-%m-%d'',
      settings_save_as = ''posts/post.html'', settings_url = ''posts/post.html'',
      override_save_as = None, override_url = None, git = None\<rparr>"

definition world0 :: world where
  "world0 = \<lparr>heap = (\<lambda>x. live0), lim = 1, cache = (\<lambda>p. None)\<rparr>"

text \<open>
  Variants of the scenario: no repository anywhere; a document that the repository does not
  track; a Static object; a world in which two revisions are already chained; a
  filesystem whose only repository is \<^verbatim>\<open>/repo\<close>; the same with a directory below it that does
  not exist; a repository that has no commit yet, where
  listing the commits of any path raises; and a second document with four commits.
\<close>

definition env_no_repository :: env where
  "env_no_repository = env0\<lparr>git_Repo := (\<lambda>d. InvalidGitRepositoryError)\<rparr>"

definition world_untracked :: world where
  "world_untracked = world0\<lparr>heap := (\<lambda>x. live0\<lparr>source_path := ''/repo/content/draft.md''\<rparr>)\<rparr>"

definition world_static :: world where
  "world_static = world0\<lparr>heap := (\<lambda>x. live0\<lparr>is_Static := True\<rparr>)\<rparr>"

definition world_chained :: world where
  "world_chained =
     \<lparr>heap = (\<lambda>x.
         if x = 1 then (parsed0 ''v1'')\<lparr>source_path := ''/repo/content/post.md'',
           git := Some \<lparr>commit = commit0 ''a0a0'' 100 ''v1'', file_path = ''content/post.md'',
             revisions = [1, 2], previous_revision = None, next_revision = Some 0\<rparr>\<rparr>
         else if x = 2 then (parsed0 ''v2'')\<lparr>source_path := ''/repo/content/post.md'',
           git := Some \<lparr>commit = commit0 ''b1b1'' 200 ''v2'', file_path = ''content/post.md'',
             revisions = [1, 2], previous_revision = Some 1, next_revision = None\<rparr>\<rparr>
         else live0),
      lim = 3, cache = (\<lambda>p. None)\<rparr>"

definition Repo_above :: "string \<Rightarrow> probe" where
  "Repo_above d = (if d = ''/repo'' then Opened repo0 else InvalidGitRepositoryError)"

definition Repo_missing :: "string \<Rightarrow> probe" where
  "Repo_missing d =
     (if d = ''/repo'' then Opened repo0
      else if d = ''/repo/missing'' \<or> d = ''/repo/missing/deeper'' then NoSuchPath
      else InvalidGitRepositoryError)"

definition repo_uncommitted :: Repo where
  "repo_uncommitted = \<lparr>working_dir = ''/repo'', iter_commits = (\<lambda>p. Inl ValueError)\<rparr>"

definition env_uncommitted :: env where
  "env_uncommitted =
     env0\<lparr>git_Repo :=
       (\<lambda>d. if d = ''/repo'' then Opened repo_uncommitted else InvalidGitRepositoryError)\<rparr>"

definition commit4 :: "string \<Rightarrow> int \<Rightarrow> string \<Rightarrow> Commit" where
  "commit4 h t blob =
     \<lparr>hexsha = h, authored_date = t,
      tree = (\<lambda>p. if p = ''content/page.md'' then Some blob else None)\<rparr>"

definition repo4 :: Repo where
  "repo4 =
     \<lparr>working_dir = ''/repo'',
      iter_commits = (\<lambda>p. if p = ''content/page.md''
         then Inr [commit4 ''d3d3'' 400 ''v4'', commit4 ''c2c2'' 300 ''v3'',
                   commit4 ''b1b1'' 200 ''v2'', commit4 ''a0a0'' 100 ''v1'']
         else Inr [])\<rparr>"

definition env4 :: env where
  "env4 =
     env0\<lparr>git_Repo := (\<lambda>d. if d = ''/repo'' then Opened repo4 else InvalidGitRepositoryError)\<rparr>"

definition world4 :: world where
  "world4 = world0\<lparr>heap := (\<lambda>x. live0\<lparr>source_path := ''/repo/content/page.md''\<rparr>)\<rparr>"

lemmas path_defs = posix_dirname_def posix_split_def posix_basename_def splitext_def slice_def
  rfind_def rstrip_def sep_def extsep_def posix_join_def join_step_def startswith_def endswith_def
  replace_char_def

lemma env0_dirname: "posix_dirname (source_path (heap world0 0)) = ''/repo/content''"
  by (simp add: world0_def live0_def path_defs)

lemma env0_walk: "discover_repository (git_Repo env0) ''/repo/content'' = Inr (Some repo0)"
  by (simp add: discover_repository.simps env0_def path_defs)

lemma env0_discover:
  "fst (cached_discover_repository env0 world0 (posix_dirname (source_path (heap world0 0)))) = Inr (Some repo0)"
  unfolding env0_dirname
  by (simp add: cached_discover_repository_def Let_def env0_walk world0_def)

lemma env0_rfp: "make_repository_file_path env0 repo0 (source_path (heap world0 0)) = ''content/post.md''"
  by (simp add: make_repository_file_path_def env0_def repo0_def world0_def live0_def replace_char_def sep_def)

lemma env0_commits: "commits_of env0 repo0 (source_path (heap world0 0)) =
    [commit0 ''a0a0'' 100 ''v1'', commit0 ''b1b1'' 200 ''v2'', commit0 ''c2c2'' 300 ''v3'']"
  unfolding commits_of_def env0_rfp by (simp add: repo0_def)

lemma env0_parse: "\<forall>c \<in> set [commit0 ''a0a0'' 100 ''v1'', commit0 ''b1b1'' 200 ''v2'', commit0 ''c2c2'' 300 ''v3''].
   parse_at env0 ''content/post.md'' c \<noteq> None"
  by (simp add: parse_at_def commit0_def env0_def path_defs)

lemma world_chained_tracked:
  "\<not> is_Static (heap world_chained 2)"
  "fst (cached_discover_repository env0 world_chained
     (posix_dirname (source_path (heap world_chained 2)))) = Inr (Some repo0)"
  "commits_of env0 repo0 (source_path (heap world_chained 2)) \<noteq> []"
  "git (heap world_chained 2) = Some \<lparr>commit = commit0 ''b1b1'' 200 ''v2'',
     file_path = ''content/post.md'', revisions = [1, 2], previous_revision = Some 1,
     next_revision = None\<rparr>"
proof -
  show "\<not> is_Static (heap world_chained 2)" by (simp add: world_chained_def parsed0_def)
  have dir: "posix_dirname (source_path (heap world_chained 2)) = ''/repo/content''"
    by (simp add: world_chained_def path_defs)
  show "fst (cached_discover_repository env0 world_chained
     (posix_dirname (source_path (heap world_chained 2)))) = Inr (Some repo0)"
    unfolding dir
    by (simp add: cached_discover_repository_def Let_def env0_walk world_chained_def)
  show "commits_of env0 repo0 (source_path (heap world_chained 2)) \<noteq> []"
    by (simp add: commits_of_def make_repository_file_path_def env0_def repo0_def
          world_chained_def replace_char_def sep_def)
  show "git (heap world_chained 2) = Some \<lparr>commit = commit0 ''b1b1'' 200 ''v2'',
     file_path = ''content/post.md'', revisions = [1, 2], previous_revision = Some 1,
     next_revision = None\<rparr>"
    by (simp add: world_chained_def)
qed

lemma fresh_document_success:
  assumes "a < lim w" and "\<not> is_Static (heap w a)" and "git (heap w a) = None"
    and "fst (cached_discover_repository E w (posix_dirname (source_path (heap w a)))) = Inr (Some repository)"
    and "commits = commits_of E repository (source_path (heap w a))" and "commits \<noteq> []"
    and "rfp = make_repository_file_path E repository (source_path (heap w a))"
    and "\<forall>c \<in> set commits. parse_at E rfp c \<noteq> None"
  shows "\<exists>w' revs. on_content_object_init E w a = Returned w'
     \<and> revs = [lim w ..< lim w + length commits]
     \<and> lim w' = lim w + length commits
     \<and> (\<forall>x < lim w. x \<noteq> a \<longrightarrow> heap w' x = heap w x)
     \<and> heap w' a = (inferred (hd commits) (last commits) (heap w a))
          \<lparr>git := Some \<lparr>commit = last commits, file_path = rfp, revisions = revs,
             previous_revision = (if length revs > 1 then Some (revs ! (length revs - 2)) else None),
             next_revision = None\<rparr>\<rparr>
     \<and> (\<forall>i < length commits.
           git (heap w' (revs ! i)) = Some (revision_git a rfp revs i (commits ! i))
         \<and> override_save_as (heap w' (revs ! i)) = Some (revision_save_as (heap w a) (commits ! i))
         \<and> override_url (heap w' (revs ! i)) =
             Some (posix_dirname (revision_save_as (heap w a) (commits ! i))))"
proof -
  obtain w1 where repo:
    "cached_discover_repository E w (posix_dirname (source_path (heap w a))) = (Inr (Some repository), w1)"
    using assms(4) by (cases "cached_discover_repository E w (posix_dirname (source_path (heap w a)))") auto
  obtain revs w3 where mat: "materialize_revisions E a rfp commits []
       (infer_modified (hd commits) (last commits) (infer_date (hd commits) w1 a) a) = Inr (revs, w3)"
    using materialize_revisions_total [OF assms(8)] by blast
  from fresh_document_chain [OF assms(1,2,3) repo assms(5,6,7) mat]
  show ?thesis by blast
qed

text \<open>
  When some revision does not materialize, the hook raises, after the dates of the live
  document have been inferred; no chain is attached and the objects that existed before are
  otherwise unchanged.
\<close>

lemma fresh_document_failure:
  assumes "a < lim w" and "\<not> is_Static (heap w a)" and "git (heap w a) = None"
    and "cached_discover_repository E w (posix_dirname (source_path (heap w a))) = (Inr (Some repository), w1)"
    and "commits = commits_of E repository (source_path (heap w a))" and "commits \<noteq> []"
    and "rfp = make_repository_file_path E repository (source_path (heap w a))"
    and "materialize_revisions E a rfp commits []
           (infer_modified (hd commits) (last commits) (infer_date (hd commits) w1 a) a) = Inl (e, w3)"
  shows "on_content_object_init E w a = Raised e w3
     \<and> heap w3 a = inferred (hd commits) (last commits) (heap w a)
     \<and> (\<forall>x < lim w. x \<noteq> a \<longrightarrow> heap w3 x = heap w x)
     \<and> (\<exists>c \<in> set commits. parse_at E rfp c = None)"
proof -
  define w2 where "w2 = infer_modified (hd commits) (last commits) (infer_date (hd commits) w1 a) a"
  note fills = cached_discover_repository_fills [OF assms(4)]
  have lim2: "lim w2 = lim w"
    by (simp add: w2_def infer_modified_world infer_date_world fills)
  have heap2a: "heap w2 a = inferred (hd commits) (last commits) (heap w a)"
    by (simp add: w2_def heap_infer fills)
  have heap2: "heap w2 x = heap w x" if "x \<noteq> a" for x
    using that by (simp add: w2_def infer_modified_world infer_date_world fills)
  from materialize_revisions_Inl [OF assms(8) [folded w2_def]]
  have frame: "\<And>x. x < lim w \<Longrightarrow> heap w3 x = heap w2 x"
    and bad: "\<exists>c \<in> set commits. parse_at E rfp c = None"
    by (simp_all add: lim2)
  have run: "on_content_object_init E w a = Raised e w3"
    using assms(6)
    by (subst on_content_object_init_fresh [OF assms(2,4) _ assms(3)])
       (simp_all add: Let_def assms(7) [symmetric] assms(5) [symmetric] assms(8))
  show ?thesis using run frame heap2a heap2 bad assms(1) by simp
qed

text \<open>
  Claim C1. For a fresh live document with a non-empty commit list whose revisions all
  materialize, the hook returns; the revision at index \<open>i\<close> of the shared revision list has
  \<open>previous_revision\<close> equal to the revision at index \<open>i - 1\<close> when \<open>i > 0\<close> and none otherwise,
  and \<open>next_revision\<close> equal to the live document when \<open>i\<close> is the second-to-last index, to the
  revision at index \<open>i + 1\<close> when \<open>i\<close> is below the last index, and none for the last revision.
\<close>

theorem revision_chain_links:
  assumes "a < lim w" and "\<not> is_Static (heap w a)" and "git (heap w a) = None"
    and "fst (cached_discover_repository E w (posix_dirname (source_path (heap w a)))) = Inr (Some repository)"
    and "commits = commits_of E repository (source_path (heap w a))" and "commits \<noteq> []"
    and "rfp = make_repository_file_path E repository (source_path (heap w a))"
    and "\<forall>c \<in> set commits. parse_at E rfp c \<noteq> None"
  shows "\<exists>w' revs. on_content_object_init E w a = Returned w'
     \<and> length revs = length commits \<and> distinct revs \<and> a \<notin> set revs
     \<and> map_option revisions (git (heap w' a)) = Some revs
     \<and> (\<forall>i < length commits. \<exists>g. git (heap w' (revs ! i)) = Some g
          \<and> commit g = commits ! i \<and> revisions g = revs
          \<and> previous_revision g = (if i > 0 then Some (revs ! (i - 1)) else None)
          \<and> next_revision g = (if i + 2 = length commits then Some a
                               else if i + 1 < length commits then Some (revs ! (i + 1))
                               else None))"
proof -
  from fresh_document_success [OF assms] obtain w' revs where
    run: "on_content_object_init E w a = Returned w'"
    and revs: "revs = [lim w ..< lim w + length commits]"
    and live: "heap w' a = (inferred (hd commits) (last commits) (heap w a))
          \<lparr>git := Some \<lparr>commit = last commits, file_path = rfp, revisions = revs,
             previous_revision = (if length revs > 1 then Some (revs ! (length revs - 2)) else None),
             next_revision = None\<rparr>\<rparr>"
    and each: "\<And>i. i < length commits \<Longrightarrow>
           git (heap w' (revs ! i)) = Some (revision_git a rfp revs i (commits ! i))"
    by blast
  have len: "length revs = length commits" by (simp add: revs)
  have "\<exists>g. git (heap w' (revs ! i)) = Some g
          \<and> commit g = commits ! i \<and> revisions g = revs
          \<and> previous_revision g = (if i > 0 then Some (revs ! (i - 1)) else None)
          \<and> next_revision g = (if i + 2 = length commits then Some a
                               else if i + 1 < length commits then Some (revs ! (i + 1))
                               else None)"
    if "i < length commits" for i
  proof -
    have "int i = int (length revs) - 2 \<longleftrightarrow> i + 2 = length commits"
      unfolding len by linarith
    moreover have "int i < int (length revs) - 1 \<longleftrightarrow> i + 1 < length commits"
      unfolding len by linarith
    ultimately show ?thesis
      unfolding each [OF that] by (simp add: revision_git_def Let_def)
  qed
  moreover have "distinct revs" "a \<notin> set revs" using assms(1) by (simp_all add: revs)
  moreover have "map_option revisions (git (heap w' a)) = Some revs" by (simp add: live)
  ultimately show ?thesis using run len by blast
qed

theorem revision_chain_links_witness:
  "\<exists>w' revs. on_content_object_init env0 world0 0 = Returned w'
     \<and> length revs = 3 \<and> distinct revs \<and> 0 \<notin> set revs
     \<and> map_option revisions (git (heap w' 0)) = Some revs
     \<and> map_option previous_revision (git (heap w' (revs ! 0))) = Some None
     \<and> map_option next_revision (git (heap w' (revs ! 0))) = Some (Some (revs ! 1))
     \<and> map_option previous_revision (git (heap w' (revs ! 1))) = Some (Some (revs ! 0))
     \<and> map_option next_revision (git (heap w' (revs ! 1))) = Some (Some 0)
     \<and> map_option previous_revision (git (heap w' (revs ! 2))) = Some (Some (revs ! 1))
     \<and> map_option next_revision (git (heap w' (revs ! 2))) = Some None"
proof -
  have "(0::nat) < lim world0" "\<not> is_Static (heap world0 0)" "git (heap world0 0) = None"
    by (simp_all add: world0_def live0_def)
  from revision_chain_links [OF this env0_discover env0_commits [symmetric] _ env0_rfp [symmetric] env0_parse]
  obtain w' revs where run: "on_content_object_init env0 world0 0 = Returned w'"
    and len: "length revs = length [commit0 ''a0a0'' 100 ''v1'', commit0 ''b1b1'' 200 ''v2'',
                 commit0 ''c2c2'' 300 ''v3'']"
    and props: "distinct revs" "0 \<notin> set revs"
      "map_option revisions (git (heap w' 0)) = Some revs"
    and each: "\<forall>i < length [commit0 ''a0a0'' 100 ''v1'', commit0 ''b1b1'' 200 ''v2'',
                 commit0 ''c2c2'' 300 ''v3'']. \<exists>g. git (heap w' (revs ! i)) = Some g
          \<and> commit g = [commit0 ''a0a0'' 100 ''v1'', commit0 ''b1b1'' 200 ''v2'',
                 commit0 ''c2c2'' 300 ''v3''] ! i \<and> revisions g = revs
          \<and> previous_revision g = (if i > 0 then Some (revs ! (i - 1)) else None)
          \<and> next_revision g = (if i + 2 = length [commit0 ''a0a0'' 100 ''v1'',
                 commit0 ''b1b1'' 200 ''v2'', commit0 ''c2c2'' 300 ''v3''] then Some 0
                               else if i + 1 < length [commit0 ''a0a0'' 100 ''v1'',
                 commit0 ''b1b1'' 200 ''v2'', commit0 ''c2c2'' 300 ''v3''] then Some (revs ! (i + 1))
                               else None)"
    by blast
  have r0: "map_option previous_revision (git (heap w' (revs ! 0))) = Some None
     \<and> map_option next_revision (git (heap w' (revs ! 0))) = Some (Some (revs ! 1))"
    using each [rule_format, of 0] by auto
  have r1: "map_option previous_revision (git (heap w' (revs ! 1))) = Some (Some (revs ! 0))
     \<and> map_option next_revision (git (heap w' (revs ! 1))) = Some (Some 0)"
    using each [rule_format, of 1] by auto
  have r2: "map_option previous_revision (git (heap w' (revs ! 2))) = Some (Some (revs ! 1))
     \<and> map_option next_revision (git (heap w' (revs ! 2))) = Some None"
    using each [rule_format, of 2] by auto
  from run len props r0 r1 r2 show ?thesis by auto
qed

text \<open>
  Claim C2. After chain construction the live document carries a chain whose commit is the
  latest (newest) commit, whose \<open>previous_revision\<close> is the second-to-last element of the
  revision list when more than one revision exists and none otherwise, and whose
  \<open>next_revision\<close> is none. The revision list is the list of the objects materialized from the
  commits, oldest first: its element at index \<open>i\<close> is the object allocated for the commit at
  index \<open>i\<close> and carries that commit in its own chain.
\<close>

theorem live_document_chain:
  assumes "a < lim w" and "\<not> is_Static (heap w a)" and "git (heap w a) = None"
    and "fst (cached_discover_repository E w (posix_dirname (source_path (heap w a)))) = Inr (Some repository)"
    and "commits = commits_of E repository (source_path (heap w a))" and "commits \<noteq> []"
    and "rfp = make_repository_file_path E repository (source_path (heap w a))"
    and "\<forall>c \<in> set commits. parse_at E rfp c \<noteq> None"
  shows "\<exists>w' g revs. on_content_object_init E w a = Returned w'
     \<and> git (heap w' a) = Some g
     \<and> commit g = last commits \<and> iter_commits repository rfp = Inr (rev commits)
     \<and> revisions g = revs \<and> revs = [lim w ..< lim w + length commits]
     \<and> (\<forall>i < length commits. \<exists>gi. git (heap w' (revs ! i)) = Some gi
            \<and> commit gi = commits ! i \<and> revisions gi = revs)
     \<and> previous_revision g =
          (if length commits > 1 then Some (revs ! (length commits - 2)) else None)
     \<and> next_revision g = None"
proof -
  from fresh_document_success [OF assms] obtain w' revs where
    run: "on_content_object_init E w a = Returned w'"
    and revs: "revs = [lim w ..< lim w + length commits]"
    and live: "heap w' a = (inferred (hd commits) (last commits) (heap w a))
          \<lparr>git := Some \<lparr>commit = last commits, file_path = rfp, revisions = revs,
             previous_revision = (if length revs > 1 then Some (revs ! (length revs - 2)) else None),
             next_revision = None\<rparr>\<rparr>"
    and each: "\<And>i. i < length commits \<Longrightarrow>
           git (heap w' (revs ! i)) = Some (revision_git a rfp revs i (commits ! i))"
    by blast
  have len: "length revs = length commits" by (simp add: revs)
  have newest: "iter_commits repository rfp = Inr (rev commits)"
    using assms(5,6,7) by (auto simp: commits_of_def split: sum.splits)
  have tied: "\<exists>gi. git (heap w' (revs ! i)) = Some gi
            \<and> commit gi = commits ! i \<and> revisions gi = revs"
    if "i < length commits" for i
    unfolding each [OF that] by (simp add: revision_git_def Let_def)
  define g where "g = \<lparr>commit = last commits, file_path = rfp, revisions = revs,
             previous_revision = (if length revs > 1 then Some (revs ! (length revs - 2)) else None),
             next_revision = None\<rparr>"
  have "git (heap w' a) = Some g" by (simp add: live g_def)
  moreover have "commit g = last commits" "revisions g = revs" "next_revision g = None"
    "previous_revision g =
          (if length commits > 1 then Some (revs ! (length commits - 2)) else None)"
    by (simp_all add: g_def len)
  ultimately show ?thesis using run newest revs tied by blast
qed

lemma env4_tracked:
  "(0::nat) < lim world4" "\<not> is_Static (heap world4 0)" "git (heap world4 0) = None"
  "fst (cached_discover_repository env4 world4 (posix_dirname (source_path (heap world4 0))))
     = Inr (Some repo4)"
  "[commit4 ''a0a0'' 100 ''v1'', commit4 ''b1b1'' 200 ''v2'', commit4 ''c2c2'' 300 ''v3'',
    commit4 ''d3d3'' 400 ''v4''] = commits_of env4 repo4 (source_path (heap world4 0))"
  "''content/page.md'' = make_repository_file_path env4 repo4 (source_path (heap world4 0))"
  "\<forall>c \<in> set [commit4 ''a0a0'' 100 ''v1'', commit4 ''b1b1'' 200 ''v2'',
      commit4 ''c2c2'' 300 ''v3'', commit4 ''d3d3'' 400 ''v4''].
      parse_at env4 ''content/page.md'' c \<noteq> None"
proof -
  show "(0::nat) < lim world4" "\<not> is_Static (heap world4 0)" "git (heap world4 0) = None"
    by (simp_all add: world4_def world0_def live0_def)
  have dir: "posix_dirname (source_path (heap world4 0)) = ''/repo/content''"
    by (simp add: world4_def world0_def live0_def path_defs)
  have walk: "discover_repository (git_Repo env4) ''/repo/content'' = Inr (Some repo4)"
    by (simp add: discover_repository.simps env4_def path_defs)
  show "fst (cached_discover_repository env4 world4 (posix_dirname (source_path (heap world4 0))))
     = Inr (Some repo4)"
    unfolding dir
    by (simp add: cached_discover_repository_def Let_def walk world4_def world0_def)
  show rfp: "''content/page.md'' = make_repository_file_path env4 repo4 (source_path (heap world4 0))"
    by (simp add: make_repository_file_path_def env4_def env0_def repo4_def world4_def world0_def
          live0_def replace_char_def sep_def)
  show "[commit4 ''a0a0'' 100 ''v1'', commit4 ''b1b1'' 200 ''v2'', commit4 ''c2c2'' 300 ''v3'',
    commit4 ''d3d3'' 400 ''v4''] = commits_of env4 repo4 (source_path (heap world4 0))"
    unfolding commits_of_def rfp [symmetric] by (simp add: repo4_def)
  show "\<forall>c \<in> set [commit4 ''a0a0'' 100 ''v1'', commit4 ''b1b1'' 200 ''v2'',
      commit4 ''c2c2'' 300 ''v3'', commit4 ''d3d3'' 400 ''v4''].
      parse_at env4 ''content/page.md'' c \<noteq> None"
    by (simp add: parse_at_def commit4_def env4_def env0_def path_defs)
qed

theorem live_document_chain_witness:
  "\<exists>w' g. on_content_object_init env4 world4 0 = Returned w'
     \<and> git (heap w' 0) = Some g
     \<and> commit g = commit4 ''d3d3'' 400 ''v4''
     \<and> revisions g = [1, 2, 3, 4]
     \<and> previous_revision g = Some 3
     \<and> map_option commit (git (heap w' 3)) = Some (commit4 ''c2c2'' 300 ''v3'')
     \<and> map_option commit (git (heap w' 1)) = Some (commit4 ''a0a0'' 100 ''v1'')
     \<and> next_revision g = None"
proof -
  from live_document_chain [OF env4_tracked(1-5) _ env4_tracked(6,7)]
  obtain w' g revs where run: "on_content_object_init env4 world4 0 = Returned w'"
    and g: "git (heap w' 0) = Some g"
    and newest: "commit g = last [commit4 ''a0a0'' 100 ''v1'', commit4 ''b1b1'' 200 ''v2'',
                 commit4 ''c2c2'' 300 ''v3'', commit4 ''d3d3'' 400 ''v4'']"
    and rg: "revisions g = revs"
    and revs: "revs = [lim world4 ..< lim world4 + length [commit4 ''a0a0'' 100 ''v1'',
                 commit4 ''b1b1'' 200 ''v2'', commit4 ''c2c2'' 300 ''v3'',
                 commit4 ''d3d3'' 400 ''v4'']]"
    and each: "\<forall>i < length [commit4 ''a0a0'' 100 ''v1'', commit4 ''b1b1'' 200 ''v2'',
                 commit4 ''c2c2'' 300 ''v3'', commit4 ''d3d3'' 400 ''v4''].
         \<exists>gi. git (heap w' (revs ! i)) = Some gi
            \<and> commit gi = [commit4 ''a0a0'' 100 ''v1'', commit4 ''b1b1'' 200 ''v2'',
                 commit4 ''c2c2'' 300 ''v3'', commit4 ''d3d3'' 400 ''v4''] ! i
            \<and> revisions gi = revs"
    and prev: "previous_revision g =
          (if length [commit4 ''a0a0'' 100 ''v1'', commit4 ''b1b1'' 200 ''v2'',
                 commit4 ''c2c2'' 300 ''v3'', commit4 ''d3d3'' 400 ''v4''] > 1
           then Some (revs ! (length [commit4 ''a0a0'' 100 ''v1'', commit4 ''b1b1'' 200 ''v2'',
                 commit4 ''c2c2'' 300 ''v3'', commit4 ''d3d3'' 400 ''v4''] - 2)) else None)"
    and nxt: "next_revision g = None"
    by blast
  have list: "revs = [1, 2, 3, 4]"
    unfolding revs by (simp add: world4_def world0_def upt_rec)
  have c3: "map_option commit (git (heap w' 3)) = Some (commit4 ''c2c2'' 300 ''v3'')"
    using each [rule_format, of 2] by (auto simp: list)
  have c1: "map_option commit (git (heap w' 1)) = Some (commit4 ''a0a0'' 100 ''v1'')"
    using each [rule_format, of 0] by (auto simp: list)
  have p: "previous_revision g = Some 3" using prev by (simp add: list)
  have n: "commit g = commit4 ''d3d3'' 400 ''v4''" using newest by simp
  from run g n rg list p c3 c1 nxt show ?thesis by auto
qed

text \<open>
  Claim C4. For a fresh live document with a non-empty commit list, whether or not the
  revisions materialize: the date becomes the first (oldest) commit's authored timestamp only
  when the document had no date, and the modification date becomes the latest commit's authored
  timestamp only when the first and latest commits differ and the document had no modification
  date; a value that was already set is kept.
\<close>

theorem live_document_dates:
  assumes "a < lim w" and "\<not> is_Static (heap w a)" and "git (heap w a) = None"
    and "fst (cached_discover_repository E w (posix_dirname (source_path (heap w a)))) = Inr (Some repository)"
    and "commits = commits_of E repository (source_path (heap w a))" and "commits \<noteq> []"
  shows "date (heap (world_of (on_content_object_init E w a)) a) =
           (case date (heap w a) of
              None \<Rightarrow> Some (fromtimestamp (authored_date (hd commits)))
            | Some d \<Rightarrow> Some d)
       \<and> modified (heap (world_of (on_content_object_init E w a)) a) =
           (if hexsha (hd commits) \<noteq> hexsha (last commits) \<and> modified (heap w a) = None
            then Some (fromtimestamp (authored_date (last commits)))
            else modified (heap w a))"
proof -
  define rfp where "rfp = make_repository_file_path E repository (source_path (heap w a))"
  obtain w1 where repo:
    "cached_discover_repository E w (posix_dirname (source_path (heap w a))) = (Inr (Some repository), w1)"
    using assms(4) by (cases "cached_discover_repository E w (posix_dirname (source_path (heap w a)))") auto
  define w2 where "w2 = infer_modified (hd commits) (last commits) (infer_date (hd commits) w1 a) a"
  have after: "heap (world_of (on_content_object_init E w a)) a =
      (inferred (hd commits) (last commits) (heap w a))
        \<lparr>git := git (heap (world_of (on_content_object_init E w a)) a)\<rparr>"
  proof (cases "materialize_revisions E a rfp commits [] w2")
    case (Inl x)
    obtain e w3 where "x = (e, w3)" by (cases x)
    with Inl have mat: "materialize_revisions E a rfp commits [] w2 = Inl (e, w3)" by simp
    from fresh_document_failure [OF assms(1,2,3) repo assms(5,6) rfp_def mat [unfolded w2_def]]
    show ?thesis using assms(3) by (simp add: inferred_fields)
  next
    case (Inr y)
    obtain revs w3 where "y = (revs, w3)" by (cases y)
    with Inr have mat: "materialize_revisions E a rfp commits [] w2 = Inr (revs, w3)" by simp
    from fresh_document_chain [OF assms(1,2,3) repo assms(5,6) rfp_def mat [unfolded w2_def]]
    show ?thesis by auto
  qed
  have "date (inferred (hd commits) (last commits) (heap w a)) =
           (case date (heap w a) of
              None \<Rightarrow> Some (fromtimestamp (authored_date (hd commits)))
            | Some d \<Rightarrow> Some d)"
    by (auto simp: inferred_def Let_def split: option.split)
  moreover have "modified (inferred (hd commits) (last commits) (heap w a)) =
           (if hexsha (hd commits) \<noteq> hexsha (last commits) \<and> modified (heap w a) = None
            then Some (fromtimestamp (authored_date (last commits)))
            else modified (heap w a))"
    by (auto simp: inferred_def Let_def)
  ultimately show ?thesis by (subst (1 2) after) simp
qed

theorem live_document_dates_witness:
  "date (heap (world_of (on_content_object_init env0 world0 0)) 0) = Some (fromtimestamp 100)
 \<and> modified (heap (world_of (on_content_object_init env0 world0 0)) 0) = Some (fromtimestamp 300)
 \<and> date (heap (world_of (on_content_object_init env0
      (world0\<lparr>heap := (\<lambda>x. live0\<lparr>date := Some (fromtimestamp 7), modified := Some (fromtimestamp 9)\<rparr>)\<rparr>) 0)) 0)
     = Some (fromtimestamp 7)
 \<and> modified (heap (world_of (on_content_object_init env0
      (world0\<lparr>heap := (\<lambda>x. live0\<lparr>date := Some (fromtimestamp 7), modified := Some (fromtimestamp 9)\<rparr>)\<rparr>) 0)) 0)
     = Some (fromtimestamp 9)"
proof -
  have h: "(0::nat) < lim world0" "\<not> is_Static (heap world0 0)" "git (heap world0 0) = None"
    by (simp_all add: world0_def live0_def)
  define world1 where
    "world1 = world0\<lparr>heap := (\<lambda>x. live0\<lparr>date := Some (fromtimestamp 7), modified := Some (fromtimestamp 9)\<rparr>)\<rparr>"
  have sp: "source_path (heap world1 0) = source_path (heap world0 0)"
    by (simp add: world1_def world0_def)
  have h1: "(0::nat) < lim world1" "\<not> is_Static (heap world1 0)" "git (heap world1 0) = None"
    by (simp_all add: world1_def world0_def live0_def)
  have d1: "fst (cached_discover_repository env0 world1 (posix_dirname (source_path (heap world1 0)))) = Inr (Some repo0)"
    unfolding sp env0_dirname
    by (simp add: cached_discover_repository_def Let_def env0_walk world0_def world1_def)
  have c1: "[commit0 ''a0a0'' 100 ''v1'', commit0 ''b1b1'' 200 ''v2'', commit0 ''c2c2'' 300 ''v3'']
      = commits_of env0 repo0 (source_path (heap world1 0))"
    unfolding sp by (rule env0_commits [symmetric])
  from live_document_dates [OF h env0_discover env0_commits [symmetric]]
    live_document_dates [OF h1 d1 c1]
  show ?thesis
    unfolding world1_def [symmetric]
    by (simp add: world0_def world1_def live0_def commit0_def)
qed

text \<open>
  Claim C5. Every materialized revision's output path is the path join of the base (the live
  document's URL when it ends in a separator, its directory name otherwise), the
  extension-stripped base name of the live document's output path unless that is \<open>index\<close>, the
  commit hash, and \<open>index\<close> followed by the original extension; the revision's URL is the
  directory name of that output path.
\<close>

theorem revision_output_paths:
  assumes "a < lim w" and "\<not> is_Static (heap w a)" and "git (heap w a) = None"
    and "fst (cached_discover_repository E w (posix_dirname (source_path (heap w a)))) = Inr (Some repository)"
    and "commits = commits_of E repository (source_path (heap w a))" and "commits \<noteq> []"
    and "rfp = make_repository_file_path E repository (source_path (heap w a))"
    and "\<forall>c \<in> set commits. parse_at E rfp c \<noteq> None"
  shows "\<exists>w' revs. on_content_object_init E w a = Returned w'
     \<and> map_option revisions (git (heap w' a)) = Some revs
     \<and> length revs = length commits
     \<and> (\<forall>i < length commits.
           save_as (heap w' (revs ! i)) =
             spec_save_as (url (heap w a)) (save_as (heap w a)) (hexsha (commits ! i))
         \<and> url (heap w' (revs ! i)) = posix_dirname (save_as (heap w' (revs ! i))))"
proof -
  from fresh_document_success [OF assms] obtain w' revs where
    run: "on_content_object_init E w a = Returned w'"
    and revs: "revs = [lim w ..< lim w + length commits]"
    and live: "heap w' a = (inferred (hd commits) (last commits) (heap w a))
          \<lparr>git := Some \<lparr>commit = last commits, file_path = rfp, revisions = revs,
             previous_revision = (if length revs > 1 then Some (revs ! (length revs - 2)) else None),
             next_revision = None\<rparr>\<rparr>"
    and each: "\<And>i. i < length commits \<Longrightarrow>
           override_save_as (heap w' (revs ! i)) = Some (revision_save_as (heap w a) (commits ! i))
         \<and> override_url (heap w' (revs ! i)) =
             Some (posix_dirname (revision_save_as (heap w a) (commits ! i)))"
    by blast
  have "save_as (heap w' (revs ! i)) =
             spec_save_as (url (heap w a)) (save_as (heap w a)) (hexsha (commits ! i))
         \<and> url (heap w' (revs ! i)) = posix_dirname (save_as (heap w' (revs ! i)))"
    if "i < length commits" for i
    using each [OF that] by (simp add: save_as_def url_def revision_save_as_spec)
  moreover have "map_option revisions (git (heap w' a)) = Some revs" by (simp add: live)
  moreover have "length revs = length commits" by (simp add: revs)
  ultimately show ?thesis using run by blast
qed

theorem revision_output_paths_witness:
  "\<exists>w' revs. on_content_object_init env0 world0 0 = Returned w'
     \<and> map_option revisions (git (heap w' 0)) = Some revs
     \<and> length revs = 3
     \<and> save_as (heap w' (revs ! 0)) = ''posts/post/a0a0/index.html''
     \<and> url (heap w' (revs ! 0)) = ''posts/post/a0a0''
     \<and> save_as (heap w' (revs ! 2)) = ''posts/post/c2c2/index.html''
     \<and> url (heap w' (revs ! 2)) = ''posts/post/c2c2''"
proof -
  have "(0::nat) < lim world0" "\<not> is_Static (heap world0 0)" "git (heap world0 0) = None"
    by (simp_all add: world0_def live0_def)
  from revision_output_paths [OF this env0_discover env0_commits [symmetric] _ env0_rfp [symmetric] env0_parse]
  obtain w' revs where run: "on_content_object_init env0 world0 0 = Returned w'"
    and revs: "map_option revisions (git (heap w' 0)) = Some revs" "length revs = 3"
    and each: "\<forall>i < length [commit0 ''a0a0'' 100 ''v1'', commit0 ''b1b1'' 200 ''v2'',
                 commit0 ''c2c2'' 300 ''v3''].
           save_as (heap w' (revs ! i)) =
             spec_save_as (url (heap world0 0)) (save_as (heap world0 0))
               (hexsha ([commit0 ''a0a0'' 100 ''v1'', commit0 ''b1b1'' 200 ''v2'',
                 commit0 ''c2c2'' 300 ''v3''] ! i))
         \<and> url (heap w' (revs ! i)) = posix_dirname (save_as (heap w' (revs ! i)))"
    by auto
  have s0: "spec_save_as (url (heap world0 0)) (save_as (heap world0 0)) ''a0a0'' =
      ''posts/post/a0a0/index.html''"
    by (simp add: spec_save_as_def url_def save_as_def world0_def live0_def path_defs)
  have s2: "spec_save_as (url (heap world0 0)) (save_as (heap world0 0)) ''c2c2'' =
      ''posts/post/c2c2/index.html''"
    by (simp add: spec_save_as_def url_def save_as_def world0_def live0_def path_defs)
  have d0: "posix_dirname ''posts/post/a0a0/index.html'' = ''posts/post/a0a0''"
    by (simp add: path_defs)
  have d2: "posix_dirname ''posts/post/c2c2/index.html'' = ''posts/post/c2c2''"
    by (simp add: path_defs)
  have "save_as (heap w' (revs ! 0)) = ''posts/post/a0a0/index.html''"
    using each [rule_format, of 0] s0 by (simp add: commit0_def)
  moreover have "save_as (heap w' (revs ! 2)) = ''posts/post/c2c2/index.html''"
    using each [rule_format, of 2] s2 by (simp add: commit0_def)
  moreover have "url (heap w' (revs ! 0)) = posix_dirname (save_as (heap w' (revs ! 0)))"
    using each [rule_format, of 0] by simp
  moreover have "url (heap w' (revs ! 2)) = posix_dirname (save_as (heap w' (revs ! 2)))"
    using each [rule_format, of 2] by simp
  ultimately show ?thesis using run revs d0 d2 by auto
qed

text \<open>
  Claim C6. For two commits with distinct, well-formed (non-empty hexadecimal) hashes and the
  same live document, the computed revision output paths differ, and each contains its own
  commit's hash as a path segment.
\<close>

theorem revision_paths_unique:
  assumes "is_hex (hexsha c1)" and "is_hex (hexsha c2)" and "hexsha c1 \<noteq> hexsha c2"
  shows "revision_save_as content c1 \<noteq> revision_save_as content c2
       \<and> hexsha c1 \<in> set (path_segments (revision_save_as content c1))
       \<and> hexsha c2 \<in> set (path_segments (revision_save_as content c2))"
  using assms revision_save_as_distinct revision_save_as_segment by blast

theorem revision_paths_unique_witness:
  "revision_save_as live0 (commit0 ''a0a0'' 100 ''v1'') \<noteq>
     revision_save_as live0 (commit0 ''b1b1'' 200 ''v2'')
   \<and> ''a0a0'' \<in> set (path_segments (revision_save_as live0 (commit0 ''a0a0'' 100 ''v1'')))
   \<and> ''b1b1'' \<in> set (path_segments (revision_save_as live0 (commit0 ''b1b1'' 200 ''v2'')))"
proof -
  have "is_hex (hexsha (commit0 ''a0a0'' 100 ''v1''))" "is_hex (hexsha (commit0 ''b1b1'' 200 ''v2''))"
    "hexsha (commit0 ''a0a0'' 100 ''v1'') \<noteq> hexsha (commit0 ''b1b1'' 200 ''v2'')"
    by (simp_all add: is_hex_def commit0_def)
  from revision_paths_unique [OF this, of live0] show ?thesis by (simp add: commit0_def)
qed

text \<open>
  What holds of an untracked document: when discovery finds no repository, or the commits of
  the tracked path are listed and the list is empty, the hook returns normally and leaves
  every content object as it was.
\<close>

lemma untracked_document_unchanged:
  assumes "fst (cached_discover_repository E w (posix_dirname (source_path (heap w a)))) = Inr None
     \<or> (\<exists>repository.
          fst (cached_discover_repository E w (posix_dirname (source_path (heap w a))))
            = Inr (Some repository)
        \<and> iter_commits repository
            (make_repository_file_path E repository (source_path (heap w a))) = Inr [])"
  shows "\<exists>w'. on_content_object_init E w a = Returned w' \<and> heap w' = heap w \<and> lim w' = lim w"
proof -
  obtain res w1 where c:
    "cached_discover_repository E w (posix_dirname (source_path (heap w a))) = (res, w1)"
    by (cases "cached_discover_repository E w (posix_dirname (source_path (heap w a)))")
  note same = cached_discover_repository_world [OF c]
  have "on_content_object_init E w a = Returned w \<or> on_content_object_init E w a = Returned w1"
    using assms
    by (subst (1 2) on_content_object_init.simps) (auto simp: c same Let_def)
  then show ?thesis using same by auto
qed

lemma untracked_document_unchanged_examples:
  "(\<exists>w'. on_content_object_init env_no_repository world0 0 = Returned w'
        \<and> heap w' = heap world0 \<and> lim w' = lim world0)
 \<and> (\<exists>w'. on_content_object_init env0 world_untracked 0 = Returned w'
        \<and> heap w' = heap world_untracked \<and> lim w' = lim world_untracked)"
proof -
  have none: "fst (cached_discover_repository env_no_repository world0
                (posix_dirname (source_path (heap world0 0)))) = Inr None"
    unfolding env0_dirname
    by (simp add: cached_discover_repository_def Let_def world0_def env_no_repository_def
          discover_repository.simps path_defs)
  have dir: "posix_dirname (source_path (heap world_untracked 0)) = ''/repo/content''"
    by (simp add: world_untracked_def world0_def live0_def path_defs)
  have found: "fst (cached_discover_repository env0 world_untracked
                (posix_dirname (source_path (heap world_untracked 0)))) = Inr (Some repo0)"
    unfolding dir
    by (simp add: cached_discover_repository_def Let_def env0_walk world0_def world_untracked_def)
  have empty: "iter_commits repo0
      (make_repository_file_path env0 repo0 (source_path (heap world_untracked 0))) = Inr []"
    by (simp add: make_repository_file_path_def env0_def repo0_def
          world_untracked_def world0_def live0_def replace_char_def sep_def)
  from untracked_document_unchanged [of env_no_repository world0 0, OF disjI1 [OF none]]
    untracked_document_unchanged [of env0 world_untracked 0, OF disjI2] found empty
  show ?thesis by blast
qed

text \<open>
  Claim C7. A document whose directory has no enclosing repository, or whose tracked path has
  an empty commit history, is to pass through the hook without an exception and unchanged.
  The source misses one case: in a repository that has no commit yet the history of every
  path is empty, but listing it (line 41, outside any handler) raises \<^verbatim>\<open>ValueError\<close>, and so
  does the hook. Here the document of the scenario lies in such a repository: discovery
  finds the repository, the commit list of the path is empty, and the hook raises.
\<close>

theorem uncommitted_repository_raises:
  "fst (cached_discover_repository env_uncommitted world0
         (posix_dirname (source_path (heap world0 0)))) = Inr (Some repo_uncommitted)
 \<and> commits_of env_uncommitted repo_uncommitted (source_path (heap world0 0)) = []
 \<and> on_content_object_init env_uncommitted world0 0 =
     Raised ValueError (world_of (on_content_object_init env_uncommitted world0 0))"
proof -
  have walk: "discover_repository (git_Repo env_uncommitted) ''/repo/content'' =
      Inr (Some repo_uncommitted)"
    by (simp add: discover_repository.simps env_uncommitted_def path_defs)
  have c: "cached_discover_repository env_uncommitted world0 ''/repo/content'' =
      (Inr (Some repo_uncommitted),
       world0\<lparr>cache := (cache world0)(''/repo/content'' \<mapsto> Some repo_uncommitted)\<rparr>)"
    by (simp add: cached_discover_repository_def walk world0_def)
  have ns: "\<not> is_Static (heap world0 0)" by (simp add: world0_def live0_def)
  have run: "on_content_object_init env_uncommitted world0 0 =
      Raised ValueError
        (world0\<lparr>cache := (cache world0)(''/repo/content'' \<mapsto> Some repo_uncommitted)\<rparr>)"
    using ns
    by (subst on_content_object_init.simps)
       (simp add: env0_dirname c repo_uncommitted_def)
  have "commits_of env_uncommitted repo_uncommitted (source_path (heap world0 0)) = []"
    by (simp add: commits_of_def repo_uncommitted_def)
  then show ?thesis unfolding env0_dirname by (simp add: c run)
qed

text \<open>
  Claim C10. For a content object of the host's Static class the hook returns at once: the
  world, including the repository cache, every content object and every date, is unchanged,
  whatever the repository and its history are.
\<close>

theorem static_content_skipped:
  "is_Static (heap w a) \<Longrightarrow> on_content_object_init E w a = Returned w"
  by (subst on_content_object_init.simps) simp

theorem static_content_skipped_witness:
  "is_Static (heap world_static 0)
 \<and> on_content_object_init env0 world_static 0 = Returned world_static
 \<and> commits_of env0 repo0 (source_path (heap world_static 0)) \<noteq> []"
proof -
  have s: "is_Static (heap world_static 0)" by (simp add: world_static_def)
  have "commits_of env0 repo0 (source_path (heap world_static 0)) \<noteq> []"
    by (simp add: commits_of_def make_repository_file_path_def env0_def repo0_def
          world_static_def world0_def live0_def replace_char_def sep_def)
  with s static_content_skipped [OF s, of env0] show ?thesis by simp
qed

lemma chained_document_reinit:
  assumes "\<not> is_Static (heap w a)"
    and "fst (cached_discover_repository E w (posix_dirname (source_path (heap w a)))) = Inr (Some repository)"
    and "commits_of E repository (source_path (heap w a)) \<noteq> []"
    and "git (heap w a) = Some g"
  shows "\<exists>w1. heap w1 = heap w \<and> lim w1 = lim w
     \<and> on_content_object_init E w a = Returned (overwrite_revision_dates w1 a g)"
proof -
  obtain w1 where c:
    "cached_discover_repository E w (posix_dirname (source_path (heap w a))) = (Inr (Some repository), w1)"
    using assms(2) by (cases "cached_discover_repository E w (posix_dirname (source_path (heap w a)))") auto
  note fills = cached_discover_repository_fills [OF c]
  have "on_content_object_init E w a = Returned (overwrite_revision_dates w1 a g)"
    using assms(1,3,4)
    by (subst on_content_object_init.simps)
       (auto simp: c fills commits_of_def Let_def split: sum.splits)
  then show ?thesis using fills by blast
qed

text \<open>
  Claim C3, as amended. When the hook fires for a content object that already carries a chain
  (and is tracked with a non-empty history), it returns without creating any object; the
  object's date and its formatted companion \<open>locale_date\<close> are set from the chain commit's
  authored timestamp; when a previous sibling exists, that sibling's \<open>modified\<close> and
  \<open>locale_modified\<close> are set to the same date; every other object, every other attribute and
  every chain, with its revision list, is unchanged.
\<close>

theorem chained_object_reinit:
  assumes "\<not> is_Static (heap w a)"
    and "fst (cached_discover_repository E w (posix_dirname (source_path (heap w a)))) = Inr (Some repository)"
    and "commits_of E repository (source_path (heap w a)) \<noteq> []"
    and "git (heap w a) = Some g"
    and "created = fromtimestamp (authored_date (commit g))"
  shows "\<exists>w'. on_content_object_init E w a = Returned w' \<and> lim w' = lim w
     \<and> date (heap w' a) = Some created
     \<and> (\<forall>p. previous_revision g = Some p \<longrightarrow> modified (heap w' p) = Some created)
     \<and> (previous_revision g \<noteq> Some a \<longrightarrow>
          heap w' a = (heap w a)\<lparr>date := Some created,
            locale_date := Some (strftime created (date_format (heap w a)))\<rparr>)
     \<and> (\<forall>p. previous_revision g = Some p \<and> p \<noteq> a \<longrightarrow>
          heap w' p = (heap w p)\<lparr>modified := Some created,
            locale_modified := Some (strftime created (date_format (heap w a)))\<rparr>)
     \<and> (\<forall>x. x \<noteq> a \<and> previous_revision g \<noteq> Some x \<longrightarrow> heap w' x = heap w x)
     \<and> (\<forall>x. git (heap w' x) = git (heap w x))"
proof -
  from chained_document_reinit [OF assms(1-4)] obtain w1 where
    w1: "heap w1 = heap w" "lim w1 = lim w"
    and run: "on_content_object_init E w a = Returned (overwrite_revision_dates w1 a g)"
    by blast
  define w' where "w' = overwrite_revision_dates w1 a g"
  have 1: "lim w' = lim w"
    by (simp add: w'_def overwrite_revision_dates_world w1)
  have 2: "date (heap w' a) = Some created"
    by (simp add: w'_def overwrite_revision_dates_def Let_def assms(5) split: option.split)
  have 3: "modified (heap w' p) = Some created" if "previous_revision g = Some p" for p
    using that by (simp add: w'_def overwrite_revision_dates_def Let_def assms(5))
  have 4: "heap w' a = (heap w a)\<lparr>date := Some created,
            locale_date := Some (strftime created (date_format (heap w a)))\<rparr>"
    if "previous_revision g \<noteq> Some a"
    using that by (auto simp: w'_def overwrite_revision_dates_def Let_def assms(5) w1 split: option.split)
  have 5: "heap w' p = (heap w p)\<lparr>modified := Some created,
            locale_modified := Some (strftime created (date_format (heap w a)))\<rparr>"
    if "previous_revision g = Some p" "p \<noteq> a" for p
    using that by (simp add: w'_def overwrite_revision_dates_def Let_def assms(5) w1)
  have 6: "heap w' x = heap w x" if "x \<noteq> a" "previous_revision g \<noteq> Some x" for x
    using that by (simp add: w'_def overwrite_revision_dates_frame w1)
  have 7: "git (heap w' x) = git (heap w x)" for x
    by (simp add: w'_def overwrite_revision_dates_fields w1)
  show ?thesis
    using run 1 2 3 4 5 6 7 unfolding w'_def [symmetric] by blast
qed

theorem chained_object_reinit_witness:
  "\<exists>w'. on_content_object_init env0 world_chained 2 = Returned w' \<and> lim w' = 3
     \<and> date (heap w' 2) = Some (fromtimestamp 200)
     \<and> modified (heap w' 1) = Some (fromtimestamp 200)
     \<and> heap w' 0 = heap world_chained 0
     \<and> git (heap w' 1) = git (heap world_chained 1)
     \<and> git (heap w' 2) = git (heap world_chained 2)"
proof -
  have created: "fromtimestamp 200 = fromtimestamp (authored_date (commit
     \<lparr>commit = commit0 ''b1b1'' 200 ''v2'', file_path = ''content/post.md'',
      revisions = [1, 2], previous_revision = Some 1, next_revision = None\<rparr>))"
    by (simp add: commit0_def)
  from chained_object_reinit [OF world_chained_tracked created]
  obtain w' where "on_content_object_init env0 world_chained 2 = Returned w'" "lim w' = lim world_chained"
    "date (heap w' 2) = Some (fromtimestamp 200)"
    "\<forall>p. Some (1::nat) = Some p \<longrightarrow> modified (heap w' p) = Some (fromtimestamp 200)"
    "\<forall>x. x \<noteq> 2 \<and> Some (1::nat) \<noteq> Some x \<longrightarrow> heap w' x = heap world_chained x"
    "\<forall>x. git (heap w' x) = git (heap world_chained x)"
    by auto
  then show ?thesis by (auto simp: world_chained_def)
qed

theorem chained_object_reinit_counterexample:
  "locale_date (heap (world_of (on_content_object_init env0 world_chained 2)) 2)
     \<noteq> locale_date (heap world_chained 2)
 \<and> locale_modified (heap (world_of (on_content_object_init env0 world_chained 2)) 1)
     \<noteq> locale_modified (heap world_chained 1)"
proof -
  from chained_document_reinit [OF world_chained_tracked] obtain w1 where
    w1: "heap w1 = heap world_chained"
    and run: "on_content_object_init env0 world_chained 2 =
      Returned (overwrite_revision_dates w1 2 \<lparr>commit = commit0 ''b1b1'' 200 ''v2'',
        file_path = ''content/post.md'', revisions = [1, 2], previous_revision = Some 1,
        next_revision = None\<rparr>)"
    by blast
  show ?thesis
    unfolding run
    by (simp add: overwrite_revision_dates_def Let_def w1) (simp add: world_chained_def parsed0_def)
qed

text \<open>
  Claim C9, as amended. For every existing input path without a trailing separator, and so
  for the directory name of any existing source path, which is what the hook passes,
  repository discovery terminates and returns the first repository found along the path's
  ancestor directories, taken upward until the directory name no longer changes, or none
  when no ancestor is a repository. The cached lookup stores the result of its first
  computation for a path and answers every later lookup of that path from the cache, without
  consulting the filesystem again.
\<close>

theorem repository_discovery:
  assumes "no_trailing_sep path" and "path_exists (git_Repo E) (ancestors path)"
  shows "discover_repository (git_Repo E) path = Inr (first_root (git_Repo E) (ancestors path))
     \<and> (\<forall>p. path_exists (git_Repo E) (ancestors (posix_dirname p)) \<longrightarrow>
            discover_repository (git_Repo E) (posix_dirname p) =
              Inr (first_root (git_Repo E) (ancestors (posix_dirname p))))
     \<and> (\<forall>w. \<exists>result w1. cached_discover_repository E w path = (Inr result, w1)
            \<and> (cache w path = None \<longrightarrow> result = first_root (git_Repo E) (ancestors path))
            \<and> cache w1 path = Some result
            \<and> (\<forall>E'. cached_discover_repository E' w1 path = (Inr result, w1)))"
proof -
  have walk: "discover_repository (git_Repo E) path = Inr (first_root (git_Repo E) (ancestors path))"
    using assms by (rule discover_repository_ancestors)
  have dir: "discover_repository (git_Repo E) (posix_dirname p) =
      Inr (first_root (git_Repo E) (ancestors (posix_dirname p)))"
    if "path_exists (git_Repo E) (ancestors (posix_dirname p))" for p
    using no_trailing_sep_dirname that by (rule discover_repository_ancestors)
  have cached: "\<exists>result w1. cached_discover_repository E w path = (Inr result, w1)
            \<and> (cache w path = None \<longrightarrow> result = first_root (git_Repo E) (ancestors path))
            \<and> cache w1 path = Some result
            \<and> (\<forall>E'. cached_discover_repository E' w1 path = (Inr result, w1))" for w
  proof -
    obtain result w1 where c: "cached_discover_repository E w path = (Inr result, w1)"
      by (cases "cache w path") (simp_all add: cached_discover_repository_def walk)
    have first: "cache w path = None \<longrightarrow> result = first_root (git_Repo E) (ancestors path)"
      using c by (auto simp: cached_discover_repository_def walk)
    have stored: "cache w1 path = Some result"
      using c by (rule cached_discover_repository_fills)
    have again: "\<forall>E'. cached_discover_repository E' w1 path = (Inr result, w1)"
      using c by (auto intro: cached_discover_repository_again)
    show ?thesis
      by (rule exI [of _ result], rule exI [of _ w1]) (simp add: c first stored again)
  qed
  show ?thesis using walk dir cached by blast
qed

theorem repository_discovery_witness:
  "discover_repository (git_Repo env0) ''/repo/content'' = Inr (Some repo0)
 \<and> first_root (git_Repo env0) (ancestors ''/repo/content'') = Some repo0
 \<and> (\<exists>w1. cached_discover_repository env0 world0 ''/repo/content'' = (Inr (Some repo0), w1)
       \<and> cache w1 ''/repo/content'' = Some (Some repo0)
       \<and> (\<forall>E'. cached_discover_repository E' w1 ''/repo/content'' = (Inr (Some repo0), w1)))"
proof -
  have nt: "no_trailing_sep ''/repo/content''" by (simp add: no_trailing_sep_def sep_def)
  have a: "ancestors ''/repo/content'' = [''/repo/content'', ''/repo'', ''/'']"
    by (simp add: ancestors.simps path_defs)
  have ex: "path_exists (git_Repo env0) (ancestors ''/repo/content'')"
    unfolding a by (simp add: path_exists_def env0_def)
  have none: "cache world0 ''/repo/content'' = None" by (simp add: world0_def)
  from repository_discovery [OF nt ex] env0_walk
  have fr: "first_root (git_Repo env0) (ancestors ''/repo/content'') = Some repo0"
    and c: "\<exists>result w1. cached_discover_repository env0 world0 ''/repo/content'' = (Inr result, w1)
            \<and> (cache world0 ''/repo/content'' = None \<longrightarrow>
                 result = first_root (git_Repo env0) (ancestors ''/repo/content''))
            \<and> cache w1 ''/repo/content'' = Some result
            \<and> (\<forall>E'. cached_discover_repository E' w1 ''/repo/content'' = (Inr result, w1))"
    by auto
  from c none fr env0_walk show ?thesis by auto
qed

theorem repository_discovery_counterexample:
  "discover_repository Repo_above ''/repo/sub/'' = Inr None
 \<and> path_exists Repo_above (ancestors ''/repo/sub/'')
 \<and> ''/repo'' \<in> set (ancestors ''/repo/sub/'')
 \<and> Repo_above ''/repo'' = Opened repo0
 \<and> first_root Repo_above (ancestors ''/repo/sub/'') = Some repo0
 \<and> discover_repository Repo_missing ''/repo/missing/deeper'' =
       Inl (NoSuchPathError ''/repo/missing/deeper'')
 \<and> no_trailing_sep ''/repo/missing/deeper''
 \<and> first_root Repo_missing (ancestors ''/repo/missing/deeper'') = Some repo0"
proof -
  have 2: "discover_repository Repo_missing ''/repo/missing/deeper'' =
       Inl (NoSuchPathError ''/repo/missing/deeper'')"
    by (simp add: discover_repository.simps Repo_missing_def)
  have 3: "no_trailing_sep ''/repo/missing/deeper''" by (simp add: no_trailing_sep_def sep_def)
  have b: "ancestors ''/repo/missing/deeper'' =
      [''/repo/missing/deeper'', ''/repo/missing'', ''/repo'', ''/'']"
    by (simp add: ancestors.simps path_defs)
  have 4: "first_root Repo_missing (ancestors ''/repo/missing/deeper'') = Some repo0"
    unfolding b by (simp add: first_root_def is_root_def Repo_missing_def)
  have 1: "discover_repository Repo_above ''/repo/sub/'' = Inr None"
    by (simp add: discover_repository.simps Repo_above_def path_defs)
  have a: "ancestors ''/repo/sub/'' = [''/repo/sub/'', ''/repo/sub'', ''/repo'', ''/'']"
    by (simp add: ancestors.simps path_defs)
  show ?thesis unfolding a using 1 2 3 4
    by (simp add: first_root_def is_root_def path_exists_def Repo_above_def)
qed

end
